theory Spec2Isabelle
  imports Main "HOL-Library.Word"
begin

unbundle bit_operations_syntax

section \<open>Data model (gnt.h, gnt.c lines 33--68)\<close>

text \<open>
  Keys and payloads are \<^verbatim>\<open>uintptr_t\<close> (taken as 64 bits), a key byte is \<^verbatim>\<open>uint8_t\<close>, the
  \<^verbatim>\<open>children\<close> counters are \<^verbatim>\<open>uint8_t\<close>. An index (\<^verbatim>\<open>size_t\<close>) is a natural number.
  Undefined behaviour of the C program is a value of type \<open>error\<close>: the dereference of a
  null pointer, and the read of a pointer variable that was never assigned.
\<close>

datatype error = NullDeref | UninitRead

datatype status = END | CONTINUE | STOP

type_synonym gnt_key = "64 word"
type_synonym gnt_data = "64 word"
type_synonym gnt_byte = "8 word"
type_synonym gnt_index = nat

text \<open>
  An accessor is a function pointer \<^verbatim>\<open>gnt_status_t (*)(gnt_byte_t*, gnt_key_t, gnt_index_t)\<close>.
  The result \<open>Some b\<close> stands for status 0 with \<open>b\<close> stored through the byte pointer, and
  \<open>None\<close> for a non-zero status, which leaves the pointed-to byte as it was (as both
  accessors of the library do).
\<close>

type_synonym gnt_accessor = "gnt_key \<Rightarrow> gnt_index \<Rightarrow> gnt_byte option"

text \<open>
  \<^verbatim>\<open>struct gnt_nibble\<close> and \<^verbatim>\<open>struct gnt_node\<close>. Every node is owned by exactly one slot of
  its parent, so the pointer graph is a tree; a slot of a 16-entry pointer array is \<open>None\<close>
  when the pointer is null. \<^verbatim>\<open>struct gbt_nibble\<close> and \<^verbatim>\<open>struct gbt_node\<close> of gbt.c have the
  same fields and share these types.
\<close>

datatype gnt_nibble = Nibble (nb_children: "8 word") (nb_nodes: "gnt_node option list")
and gnt_node = Node (nd_occupied: bool) (nd_children: "8 word") (nd_data: gnt_data)
                    (nd_nibbles: "gnt_nibble option list")

text \<open>
  \<^verbatim>\<open>struct gnt_trie\<close>. The deallocator is a function pointer with no result; the field says
  whether it is non-null, and every operation returns the list of payloads it was called
  on, in call order. The mutex has no effect on the result of a single-threaded run and
  is left out.
\<close>

record gnt_trie =
  t_children :: "8 word"
  t_nibbles :: "gnt_nibble option list"
  t_accessor :: gnt_accessor
  t_deallocator :: bool

record gnt_cfg =
  cfg_accessor :: "gnt_accessor option"
  cfg_deallocator :: bool

definition GNT_HIGH_NIBBLE :: "gnt_byte \<Rightarrow> nat" where
  "GNT_HIGH_NIBBLE byte = unat (drop_bit 4 byte)"

definition GNT_LOW_NIBBLE :: "gnt_byte \<Rightarrow> nat" where
  "GNT_LOW_NIBBLE byte = unat (byte AND 0x0F)"

text \<open>
  Reading entry \<open>i\<close> of a pointer array. The arrays of the program have 16 entries and
  every index is a nibble, so the second branch is never taken on them.
\<close>

definition slot :: "'a option list \<Rightarrow> nat \<Rightarrow> 'a option" where
  "slot xs i = (if i < length xs then xs ! i else None)"

text \<open>What \<^verbatim>\<open>calloc\<close> returns for a nibble layer and for a byte node (allocation succeeds).\<close>

definition calloc_nibble :: gnt_nibble where
  "calloc_nibble = Nibble 0 (replicate 16 None)"

definition calloc_node :: gnt_node where
  "calloc_node = Node False 0 0 (replicate 16 None)"

section \<open>Accessors (gnt.c lines 230--266, gbt.c lines 223--246)\<close>

text \<open>
  The string accessor casts the key to \<^verbatim>\<open>char*\<close>. The memory gives, for an address, the
  bytes stored from there on; \<^verbatim>\<open>strlen\<close> counts the bytes before the first zero byte.
\<close>

type_synonym memory = "gnt_key \<Rightarrow> gnt_byte list"

definition strlen :: "gnt_byte list \<Rightarrow> nat" where
  "strlen str = length (takeWhile (\<lambda>c. c \<noteq> 0) str)"

definition gnt_accessor_string :: "memory \<Rightarrow> gnt_accessor" where
  "gnt_accessor_string mem key index =
     (let str = mem key
      in if index \<ge> strlen str then None else Some (str ! index))"

lemma drop_bit_8_less:
  fixes temp :: "64 word"
  assumes "0 < drop_bit 8 temp"
  shows "unat (drop_bit 8 temp) < unat temp"
proof -
  have "unat (drop_bit 8 temp) = unat temp div 256"
    by (simp add: unat_drop_bit_eq drop_bit_eq_div unat_div)
  moreover have "0 < unat (drop_bit 8 temp)"
    using assms by (simp add: word_less_nat_alt)
  ultimately show ?thesis by linarith
qed

text \<open>The \<^verbatim>\<open>do ... while (temp > 0)\<close> loop of the default accessor of gnt.c.\<close>

function gnt_count_digits :: "8 word \<Rightarrow> gnt_key \<Rightarrow> 8 word" where
  "gnt_count_digits digits temp =
     (let digits' = digits + 1;
          temp' = drop_bit 8 temp
      in if temp' > 0 then gnt_count_digits digits' temp' else digits')"
  by pat_completeness auto
termination
  by (relation "measure (\<lambda>(digits, temp). unat temp)") (auto intro: drop_bit_8_less)

text \<open>The \<^verbatim>\<open>for (i = 0; i < digits - index - 1; i++) key >>= 8\<close> loop; \<open>n\<close> is the bound.\<close>

function gnt_shift_loop :: "nat \<Rightarrow> nat \<Rightarrow> gnt_key \<Rightarrow> gnt_key" where
  "gnt_shift_loop i n key =
     (if i < n then gnt_shift_loop (i + 1) n (drop_bit 8 key) else key)"
  by pat_completeness auto
termination
  by (relation "measure (\<lambda>(i, n, key). n - i)") auto

definition gnt_accessor_default :: gnt_accessor where
  "gnt_accessor_default key index =
     (let digits = gnt_count_digits 0 key
      in if index \<ge> unat digits then None
         else Some (ucast (gnt_shift_loop 0 (unat digits - index - 1) key AND 255)))"

section \<open>Termination measure of the tree walks\<close>

lemma slot_mem: "slot xs i = Some x \<Longrightarrow> Some x \<in> set xs"
  by (auto simp: slot_def in_set_conv_nth split: if_splits)

lemma size_slot_le:
  "slot xs i = Some x \<Longrightarrow> Suc (f x) \<le> size_list (size_option f) xs"
proof -
  assume "slot xs i = Some x"
  then have "Some x \<in> set xs" by (rule slot_mem)
  then have "size_option f (Some x) \<le> size_list (size_option f) xs"
    by (rule size_list_estimation') simp
  then show ?thesis by simp
qed

lemma size_nibble_nodes:
  "slot nibbles i = Some nb \<Longrightarrow>
     size_list (size_option size) (nb_nodes nb) < size_list (size_option size) nibbles"
  using size_slot_le [of nibbles i nb size] by (cases nb) simp

lemma size_node_nibbles:
  "slot nodes i = Some nd \<Longrightarrow>
     size_list (size_option size) (nd_nibbles nd) < size_list (size_option size) nodes"
  using size_slot_le [of nodes i nd size] by (cases nd) simp

lemma size_nodes_in_nibbles:
  assumes "slot nibbles i = Some nb" and "slot (nb_nodes nb) j = Some nd"
  shows "size_list (size_option size) (nd_nibbles nd) < size_list (size_option size) nibbles"
  using size_nibble_nodes [OF assms(1)] size_node_nibbles [OF assms(2)] by linarith

section \<open>Creation (gnt.c lines 75--106)\<close>

text \<open>The two flags say whether \<^verbatim>\<open>calloc\<close> and \<^verbatim>\<open>mtx_init\<close> succeed.\<close>

definition gnt_create :: "bool \<Rightarrow> bool \<Rightarrow> gnt_cfg option \<Rightarrow> gnt_trie option" where
  "gnt_create calloc_ok mtx_ok cfg =
     (let accessor = (case cfg of
                        Some c \<Rightarrow> (case cfg_accessor c of
                                     Some a \<Rightarrow> a
                                   | None \<Rightarrow> gnt_accessor_default)
                      | None \<Rightarrow> gnt_accessor_default);
          deallocator = (case cfg of Some c \<Rightarrow> cfg_deallocator c | None \<Rightarrow> False)
      in if calloc_ok
         then (if \<not> mtx_ok then None
               else Some \<lparr>t_children = 0, t_nibbles = replicate 16 None,
                          t_accessor = accessor, t_deallocator = deallocator\<rparr>)
         else None)"

section \<open>Insertion (gnt.c lines 120--167)\<close>

text \<open>
  One run of the body of the \<^verbatim>\<open>while\<close> loop for the byte the accessor gave at \<open>index\<close>,
  followed by the rest of the loop. \<open>nibbles\<close> and \<open>children\<close> are the array and the
  counter the two cursors of the loop point at; the result is their contents when the
  function returns, with the payloads handed to the deallocator. When the accessor ends
  the key at \<open>index + 1\<close> the loop is left and lines 157--163 write the node the loop
  stopped at. The loop need not end (an accessor that never ends the key): \<open>None\<close>.
\<close>

partial_function (option) gnt_insert_loop ::
  "gnt_accessor \<Rightarrow> gnt_key \<Rightarrow> gnt_index \<Rightarrow> gnt_byte \<Rightarrow> gnt_data \<Rightarrow> bool
     \<Rightarrow> gnt_nibble option list \<Rightarrow> 8 word
     \<Rightarrow> (gnt_nibble option list \<times> 8 word \<times> gnt_data list) option" where
  "gnt_insert_loop accessor key index byte data deallocator nibbles children =
     (let high_nibble = GNT_HIGH_NIBBLE byte;
          low_nibble = GNT_LOW_NIBBLE byte;
          nibble = (case slot nibbles high_nibble of None \<Rightarrow> calloc_nibble | Some nb \<Rightarrow> nb);
          children1 = (case slot nibbles high_nibble of
                         None \<Rightarrow> children + 1
                       | Some nb \<Rightarrow> children);
          node = (case slot (nb_nodes nibble) low_nibble of
                    None \<Rightarrow> calloc_node
                  | Some nd \<Rightarrow> nd);
          nchildren1 = (case slot (nb_nodes nibble) low_nibble of
                          None \<Rightarrow> nb_children nibble + 1
                        | Some nd \<Rightarrow> nb_children nibble)
      in case accessor key (index + 1) of
           None \<Rightarrow>
             Some (nibbles[high_nibble := Some (Nibble nchildren1
                     ((nb_nodes nibble)[low_nibble :=
                        Some (Node True (nd_children node) data (nd_nibbles node))]))],
                   children1,
                   if nd_occupied node \<and> deallocator then [nd_data node] else [])
         | Some byte' \<Rightarrow>
             Option.bind
               (gnt_insert_loop accessor key (index + 1) byte' data deallocator
                  (nd_nibbles node) (nd_children node))
               (\<lambda>(nibbles', children', calls).
                  Some (nibbles[high_nibble := Some (Nibble nchildren1
                          ((nb_nodes nibble)[low_nibble :=
                             Some (Node (nd_occupied node) children' (nd_data node) nibbles')]))],
                        children1, calls)))"

text \<open>
  \<^verbatim>\<open>gnt_insert\<close>: status, trie and deallocator calls. When the accessor ends the key at
  index 0 the loop body never runs and line 157 reads \<^verbatim>\<open>node\<close>, which was never assigned.
\<close>

definition gnt_insert ::
  "gnt_trie option \<Rightarrow> gnt_key \<Rightarrow> gnt_data
     \<Rightarrow> (error + (int \<times> gnt_trie option \<times> gnt_data list)) option" where
  "gnt_insert trie key data =
     (case trie of
        None \<Rightarrow> Some (Inr (- 1, None, []))
      | Some t \<Rightarrow>
          (case t_accessor t key 0 of
             None \<Rightarrow> Some (Inl UninitRead)
           | Some byte \<Rightarrow>
               Option.bind
                 (gnt_insert_loop (t_accessor t) key 0 byte data (t_deallocator t)
                    (t_nibbles t) (t_children t))
                 (\<lambda>(nibbles', children', calls).
                    Some (Inr (0, Some (t\<lparr>t_nibbles := nibbles', t_children := children'\<rparr>),
                               calls)))))"

section \<open>Search (gnt.c lines 169--207)\<close>

text \<open>
  The \<^verbatim>\<open>while\<close> loop of \<^verbatim>\<open>gnt_search\<close> with its cursors \<open>nibbles\<close> and \<open>node\<close>; \<open>node\<close> is
  \<open>None\<close> as long as the variable has not been assigned. The walk descends in the tree,
  so it ends whatever the accessor does.
\<close>

function gnt_search_loop ::
  "gnt_accessor \<Rightarrow> gnt_key \<Rightarrow> gnt_index \<Rightarrow> gnt_nibble option list \<Rightarrow> gnt_node option
     \<Rightarrow> error + gnt_data" where
  "gnt_search_loop accessor key index nibbles node =
     (case accessor key index of
        None \<Rightarrow> (case node of None \<Rightarrow> Inl UninitRead | Some nd \<Rightarrow> Inr (nd_data nd))
      | Some byte \<Rightarrow>
          (case slot nibbles (GNT_HIGH_NIBBLE byte) of
             None \<Rightarrow> Inr 0
           | Some nb \<Rightarrow>
               (case slot (nb_nodes nb) (GNT_LOW_NIBBLE byte) of
                  None \<Rightarrow> Inr 0
                | Some nd \<Rightarrow>
                    gnt_search_loop accessor key (index + 1) (nd_nibbles nd) (Some nd))))"
  by pat_completeness auto
termination
  by (relation "measure (\<lambda>(accessor, key, index, nibbles, node).
                   size_list (size_option size) nibbles)")
     (auto intro: size_nodes_in_nibbles)

definition gnt_search :: "gnt_trie option \<Rightarrow> gnt_key \<Rightarrow> error + gnt_data" where
  "gnt_search trie key =
     (case trie of
        None \<Rightarrow> Inr (- 1)
      | Some t \<Rightarrow> gnt_search_loop (t_accessor t) key 0 (t_nibbles t) None)"

section \<open>Deletion (gnt.c lines 209--228 and 302--362)\<close>

text \<open>
  Lines 318--361 of \<^verbatim>\<open>_gnt_delete_recursive\<close>: what the function does after the recursive
  call has returned \<open>status\<close>, with \<open>child_byte\<close> as the call left it, \<open>nibbles'\<close> the
  contents of \<^verbatim>\<open>node->nibbles\<close> after the call and \<open>calls\<close> the deallocator calls so far.
  The result is the returned status, the byte stored through \<^verbatim>\<open>byte\<close>, the contents of
  the array \<open>nibbles\<close> (the nibble layer is updated in place) and the deallocator calls.
\<close>

definition gnt_delete_unwind ::
  "gnt_nibble option list \<Rightarrow> gnt_byte \<Rightarrow> gnt_nibble \<Rightarrow> gnt_node \<Rightarrow> bool
     \<Rightarrow> status \<Rightarrow> gnt_byte \<Rightarrow> gnt_nibble option list \<Rightarrow> gnt_data list
     \<Rightarrow> status \<times> gnt_byte option \<times> gnt_nibble option list \<times> gnt_data list" where
  "gnt_delete_unwind nibbles byte nibble node deallocator status child_byte nibbles' calls =
     (let high_nibble = GNT_HIGH_NIBBLE byte;
          low_nibble = GNT_LOW_NIBBLE byte;
          store = (\<lambda>nd. nibbles[high_nibble :=
                     Some (Nibble (nb_children nibble) ((nb_nodes nibble)[low_nibble := Some nd]))]);
          node1 = Node (nd_occupied node) (nd_children node) (nd_data node) nibbles'
      in if status = STOP then (STOP, Some byte, store node1, calls)
         else
           let calls2 = (if status = END \<and> deallocator then calls @ [nd_data node1] else calls);
               node2 = (if status = END
                        then Node False (nd_children node1) 0 (nd_nibbles node1)
                        else node1)
           in if status = END \<and> nd_children node2 \<noteq> 0 then (STOP, Some byte, store node2, calls2)
              else
                let nibbles3 = (nd_nibbles node2)[GNT_HIGH_NIBBLE child_byte := None];
                    children3 = (if nd_children node2 \<noteq> 0 then nd_children node2 - 1
                                 else nd_children node2);
                    node3 = Node (nd_occupied node2) children3 (nd_data node2) nibbles3
                in if children3 \<noteq> 0 then (STOP, Some byte, store node3, calls2)
                   else
                     let nibble4 = Nibble (nb_children nibble - 1)
                                          ((nb_nodes nibble)[low_nibble := None])
                     in (if nb_children nibble4 \<noteq> 0 then STOP else CONTINUE,
                         Some byte, nibbles[high_nibble := Some nibble4], calls2))"

text \<open>
  \<^verbatim>\<open>_gnt_delete_recursive\<close>. Line 313 reads \<^verbatim>\<open>nibble->nodes\<close> and line 316 \<^verbatim>\<open>node->nibbles\<close>
  with no test of the pointer. The second component of the result is the byte the accessor
  stored through \<^verbatim>\<open>byte\<close>, if it stored one; the caller's \<^verbatim>\<open>child_byte\<close> starts as 0.
\<close>

function gnt_delete_recursive ::
  "gnt_nibble option list \<Rightarrow> gnt_key \<Rightarrow> gnt_index \<Rightarrow> gnt_accessor \<Rightarrow> bool
     \<Rightarrow> error + (status \<times> gnt_byte option \<times> gnt_nibble option list \<times> gnt_data list)" where
  "gnt_delete_recursive nibbles key index accessor deallocator =
     (case accessor key index of
        None \<Rightarrow> Inr (END, None, nibbles, [])
      | Some byte \<Rightarrow>
          (case slot nibbles (GNT_HIGH_NIBBLE byte) of
             None \<Rightarrow> Inl NullDeref
           | Some nibble \<Rightarrow>
               (case slot (nb_nodes nibble) (GNT_LOW_NIBBLE byte) of
                  None \<Rightarrow> Inl NullDeref
                | Some node \<Rightarrow>
                    (case gnt_delete_recursive (nd_nibbles node) key (index + 1)
                            accessor deallocator of
                       Inl e \<Rightarrow> Inl e
                     | Inr (status, written, nibbles', calls) \<Rightarrow>
                         Inr (gnt_delete_unwind nibbles byte nibble node deallocator status
                                (case written of None \<Rightarrow> 0 | Some b \<Rightarrow> b) nibbles' calls)))))"
  by pat_completeness auto
termination
  by (relation "measure (\<lambda>(nibbles, key, index, accessor, deallocator).
                   size_list (size_option size) nibbles)")
     (auto intro: size_nodes_in_nibbles)

text \<open>
  \<^verbatim>\<open>gnt_delete\<close>. Its \<^verbatim>\<open>child_byte\<close> has no initial value; it is read only after a
  \<^verbatim>\<open>CONTINUE\<close>.
\<close>

definition gnt_delete ::
  "gnt_trie option \<Rightarrow> gnt_key \<Rightarrow> error + (int \<times> gnt_trie option \<times> gnt_data list)" where
  "gnt_delete trie key =
     (case trie of
        None \<Rightarrow> Inr (- 1, None, [])
      | Some t \<Rightarrow>
          (case gnt_delete_recursive (t_nibbles t) key 0 (t_accessor t) (t_deallocator t) of
             Inl e \<Rightarrow> Inl e
           | Inr (status, written, nibbles', calls) \<Rightarrow>
               if status = CONTINUE
               then (case written of
                       None \<Rightarrow> Inl UninitRead
                     | Some child_byte \<Rightarrow>
                         if t_children t \<noteq> 0
                         then Inr (0, Some (t\<lparr>t_nibbles :=
                                               nibbles'[GNT_HIGH_NIBBLE child_byte := None],
                                             t_children := t_children t - 1\<rparr>), calls)
                         else Inr (0, Some (t\<lparr>t_nibbles := nibbles'\<rparr>), calls))
               else Inr (0, Some (t\<lparr>t_nibbles := nibbles'\<rparr>), calls)))"

section \<open>Destruction (gnt.c lines 108--118 and 268--300)\<close>

text \<open>
  The two \<^verbatim>\<open>for\<close> loops, from loop index \<open>i\<close> on, with the local copy of the counter. The
  result is the list of deallocator calls; every visited node is freed.
\<close>

function gnt_destroy_recursive_nibbles ::
    "gnt_nibble option list \<Rightarrow> 8 word \<Rightarrow> bool \<Rightarrow> nat \<Rightarrow> gnt_data list"
  and gnt_destroy_recursive_nodes ::
    "gnt_node option list \<Rightarrow> 8 word \<Rightarrow> bool \<Rightarrow> nat \<Rightarrow> gnt_data list" where
  "gnt_destroy_recursive_nibbles nibbles children deallocator i =
     (if children \<noteq> 0 \<and> i < 16
      then (case slot nibbles i of
              None \<Rightarrow> gnt_destroy_recursive_nibbles nibbles children deallocator (i + 1)
            | Some nb \<Rightarrow>
                gnt_destroy_recursive_nodes (nb_nodes nb) (nb_children nb) deallocator 0
                  @ gnt_destroy_recursive_nibbles nibbles (children - 1) deallocator (i + 1))
      else [])"
| "gnt_destroy_recursive_nodes nodes children deallocator i =
     (if children \<noteq> 0 \<and> i < 16
      then (case slot nodes i of
              None \<Rightarrow> gnt_destroy_recursive_nodes nodes children deallocator (i + 1)
            | Some nd \<Rightarrow>
                gnt_destroy_recursive_nibbles (nd_nibbles nd) (nd_children nd) deallocator 0
                  @ (if deallocator then [nd_data nd] else [])
                  @ gnt_destroy_recursive_nodes nodes (children - 1) deallocator (i + 1))
      else [])"
  by pat_completeness auto
termination
  by (relation "inv_image (less_than <*lex*> less_than)
        (\<lambda>x. case x of
           Inl (nibbles, children, deallocator, i) \<Rightarrow>
             (size_list (size_option size) nibbles, 16 - i)
         | Inr (nodes, children, deallocator, i) \<Rightarrow>
             (size_list (size_option size) nodes, 16 - i))")
     (auto intro: size_nibble_nodes size_node_nibbles)

definition gnt_destroy :: "gnt_trie option \<Rightarrow> int \<times> gnt_trie option \<times> gnt_data list" where
  "gnt_destroy trie =
     (case trie of
        None \<Rightarrow> (- 1, None, [])
      | Some t \<Rightarrow>
          (0, None,
           gnt_destroy_recursive_nibbles (t_nibbles t) (t_children t) (t_deallocator t) 0))"

section \<open>The unguarded variant (gbt.c)\<close>

text \<open>
  gbt.c is a second copy of the library with no mutex. Its types \<^verbatim>\<open>gbt_key_t\<close>,
  \<^verbatim>\<open>gbt_data_t\<close>, \<^verbatim>\<open>gbt_byte_t\<close>, \<^verbatim>\<open>gbt_index_t\<close> and its node structures have the
  definitions of their gnt.h counterparts; \<^verbatim>\<open>struct gbt_trie\<close> is a record of its own.
\<close>

type_synonym gbt_key = "64 word"
type_synonym gbt_data = "64 word"
type_synonym gbt_byte = "8 word"
type_synonym gbt_index = nat
type_synonym gbt_accessor = "gbt_key \<Rightarrow> gbt_index \<Rightarrow> gbt_byte option"

record gbt_trie =
  b_children :: "8 word"
  b_nibbles :: "gnt_nibble option list"
  b_accessor :: gbt_accessor
  b_deallocator :: bool

record gbt_cfg =
  bcfg_accessor :: "gbt_accessor option"
  bcfg_deallocator :: bool

definition GBT_HIGH_NIBBLE :: "gbt_byte \<Rightarrow> nat" where
  "GBT_HIGH_NIBBLE byte = unat (drop_bit 4 byte)"

definition GBT_LOW_NIBBLE :: "gbt_byte \<Rightarrow> nat" where
  "GBT_LOW_NIBBLE byte = unat (byte AND 0x0F)"

definition gbt_accessor_string :: "memory \<Rightarrow> gbt_accessor" where
  "gbt_accessor_string mem key index =
     (let str = mem key
      in if index \<ge> strlen str then None else Some (str ! index))"

lemma div_10_less:
  fixes temp :: "64 word"
  assumes "0 < temp div 10"
  shows "unat (temp div 10) < unat temp"
proof -
  have "unat (temp div 10) = unat temp div 10" by (simp add: unat_div)
  moreover have "0 < unat (temp div 10)"
    using assms by (simp add: word_less_nat_alt)
  ultimately show ?thesis by linarith
qed

text \<open>
  The default accessor of gbt.c (lines 223--246): the same two loops with \<^verbatim>\<open>/= 10\<close> for
  \<^verbatim>\<open>>>= 8\<close>, and \<^verbatim>\<open>key % 10\<close> for \<^verbatim>\<open>key & 255\<close>.
\<close>

function gbt_count_digits :: "8 word \<Rightarrow> gbt_key \<Rightarrow> 8 word" where
  "gbt_count_digits digits temp =
     (let digits' = digits + 1;
          temp' = temp div 10
      in if temp' > 0 then gbt_count_digits digits' temp' else digits')"
  by pat_completeness auto
termination
  by (relation "measure (\<lambda>(digits, temp). unat temp)") (auto intro: div_10_less)

function gbt_shift_loop :: "nat \<Rightarrow> nat \<Rightarrow> gbt_key \<Rightarrow> gbt_key" where
  "gbt_shift_loop i n key =
     (if i < n then gbt_shift_loop (i + 1) n (key div 10) else key)"
  by pat_completeness auto
termination
  by (relation "measure (\<lambda>(i, n, key). n - i)") auto

definition gbt_accessor_default :: gbt_accessor where
  "gbt_accessor_default key index =
     (let digits = gbt_count_digits 0 key
      in if index \<ge> unat digits then None
         else Some (ucast (gbt_shift_loop 0 (unat digits - index - 1) key mod 10)))"

text \<open>\<^verbatim>\<open>gbt_create\<close> (lines 73--98); the flag says whether \<^verbatim>\<open>calloc\<close> succeeds.\<close>

definition gbt_create :: "bool \<Rightarrow> gbt_cfg option \<Rightarrow> gbt_trie option" where
  "gbt_create calloc_ok cfg =
     (let accessor = (case cfg of
                        Some c \<Rightarrow> (case bcfg_accessor c of
                                     Some a \<Rightarrow> a
                                   | None \<Rightarrow> gbt_accessor_default)
                      | None \<Rightarrow> gbt_accessor_default);
          deallocator = (case cfg of Some c \<Rightarrow> bcfg_deallocator c | None \<Rightarrow> False)
      in if calloc_ok
         then Some \<lparr>b_children = 0, b_nibbles = replicate 16 None,
                    b_accessor = accessor, b_deallocator = deallocator\<rparr>
         else None)"

text \<open>\<^verbatim>\<open>gbt_insert\<close> (lines 110--155), modelled as \<^verbatim>\<open>gnt_insert\<close> is.\<close>

partial_function (option) gbt_insert_loop ::
  "gbt_accessor \<Rightarrow> gbt_key \<Rightarrow> gbt_index \<Rightarrow> gbt_byte \<Rightarrow> gbt_data \<Rightarrow> bool
     \<Rightarrow> gnt_nibble option list \<Rightarrow> 8 word
     \<Rightarrow> (gnt_nibble option list \<times> 8 word \<times> gbt_data list) option" where
  "gbt_insert_loop accessor key index byte data deallocator nibbles children =
     (let high_nibble = GBT_HIGH_NIBBLE byte;
          low_nibble = GBT_LOW_NIBBLE byte;
          nibble = (case slot nibbles high_nibble of None \<Rightarrow> calloc_nibble | Some nb \<Rightarrow> nb);
          children1 = (case slot nibbles high_nibble of
                         None \<Rightarrow> children + 1
                       | Some nb \<Rightarrow> children);
          node = (case slot (nb_nodes nibble) low_nibble of
                    None \<Rightarrow> calloc_node
                  | Some nd \<Rightarrow> nd);
          nchildren1 = (case slot (nb_nodes nibble) low_nibble of
                          None \<Rightarrow> nb_children nibble + 1
                        | Some nd \<Rightarrow> nb_children nibble)
      in case accessor key (index + 1) of
           None \<Rightarrow>
             Some (nibbles[high_nibble := Some (Nibble nchildren1
                     ((nb_nodes nibble)[low_nibble :=
                        Some (Node True (nd_children node) data (nd_nibbles node))]))],
                   children1,
                   if nd_occupied node \<and> deallocator then [nd_data node] else [])
         | Some byte' \<Rightarrow>
             Option.bind
               (gbt_insert_loop accessor key (index + 1) byte' data deallocator
                  (nd_nibbles node) (nd_children node))
               (\<lambda>(nibbles', children', calls).
                  Some (nibbles[high_nibble := Some (Nibble nchildren1
                          ((nb_nodes nibble)[low_nibble :=
                             Some (Node (nd_occupied node) children' (nd_data node) nibbles')]))],
                        children1, calls)))"

definition gbt_insert ::
  "gbt_trie option \<Rightarrow> gbt_key \<Rightarrow> gbt_data
     \<Rightarrow> (error + (int \<times> gbt_trie option \<times> gbt_data list)) option" where
  "gbt_insert trie key data =
     (case trie of
        None \<Rightarrow> Some (Inr (- 1, None, []))
      | Some t \<Rightarrow>
          (case b_accessor t key 0 of
             None \<Rightarrow> Some (Inl UninitRead)
           | Some byte \<Rightarrow>
               Option.bind
                 (gbt_insert_loop (b_accessor t) key 0 byte data (b_deallocator t)
                    (b_nibbles t) (b_children t))
                 (\<lambda>(nibbles', children', calls).
                    Some (Inr (0, Some (t\<lparr>b_nibbles := nibbles', b_children := children'\<rparr>),
                               calls)))))"

text \<open>\<^verbatim>\<open>gbt_search\<close> (lines 157--189).\<close>

function gbt_search_loop ::
  "gbt_accessor \<Rightarrow> gbt_key \<Rightarrow> gbt_index \<Rightarrow> gnt_nibble option list \<Rightarrow> gnt_node option
     \<Rightarrow> error + gbt_data" where
  "gbt_search_loop accessor key index nibbles node =
     (case accessor key index of
        None \<Rightarrow> (case node of None \<Rightarrow> Inl UninitRead | Some nd \<Rightarrow> Inr (nd_data nd))
      | Some byte \<Rightarrow>
          (case slot nibbles (GBT_HIGH_NIBBLE byte) of
             None \<Rightarrow> Inr 0
           | Some nb \<Rightarrow>
               (case slot (nb_nodes nb) (GBT_LOW_NIBBLE byte) of
                  None \<Rightarrow> Inr 0
                | Some nd \<Rightarrow>
                    gbt_search_loop accessor key (index + 1) (nd_nibbles nd) (Some nd))))"
  by pat_completeness auto
termination
  by (relation "measure (\<lambda>(accessor, key, index, nibbles, node).
                   size_list (size_option size) nibbles)")
     (auto intro: size_nodes_in_nibbles)

definition gbt_search :: "gbt_trie option \<Rightarrow> gbt_key \<Rightarrow> error + gbt_data" where
  "gbt_search trie key =
     (case trie of
        None \<Rightarrow> Inr (- 1)
      | Some t \<Rightarrow> gbt_search_loop (b_accessor t) key 0 (b_nibbles t) None)"

text \<open>\<^verbatim>\<open>gbt_delete\<close> and \<^verbatim>\<open>_gbt_delete_recursive\<close> (lines 191--208 and 282--342).\<close>

definition gbt_delete_unwind ::
  "gnt_nibble option list \<Rightarrow> gbt_byte \<Rightarrow> gnt_nibble \<Rightarrow> gnt_node \<Rightarrow> bool
     \<Rightarrow> status \<Rightarrow> gbt_byte \<Rightarrow> gnt_nibble option list \<Rightarrow> gbt_data list
     \<Rightarrow> status \<times> gbt_byte option \<times> gnt_nibble option list \<times> gbt_data list" where
  "gbt_delete_unwind nibbles byte nibble node deallocator status child_byte nibbles' calls =
     (let high_nibble = GBT_HIGH_NIBBLE byte;
          low_nibble = GBT_LOW_NIBBLE byte;
          store = (\<lambda>nd. nibbles[high_nibble :=
                     Some (Nibble (nb_children nibble) ((nb_nodes nibble)[low_nibble := Some nd]))]);
          node1 = Node (nd_occupied node) (nd_children node) (nd_data node) nibbles'
      in if status = STOP then (STOP, Some byte, store node1, calls)
         else
           let calls2 = (if status = END \<and> deallocator then calls @ [nd_data node1] else calls);
               node2 = (if status = END
                        then Node False (nd_children node1) 0 (nd_nibbles node1)
                        else node1)
           in if status = END \<and> nd_children node2 \<noteq> 0 then (STOP, Some byte, store node2, calls2)
              else
                let nibbles3 = (nd_nibbles node2)[GBT_HIGH_NIBBLE child_byte := None];
                    children3 = (if nd_children node2 \<noteq> 0 then nd_children node2 - 1
                                 else nd_children node2);
                    node3 = Node (nd_occupied node2) children3 (nd_data node2) nibbles3
                in if children3 \<noteq> 0 then (STOP, Some byte, store node3, calls2)
                   else
                     let nibble4 = Nibble (nb_children nibble - 1)
                                          ((nb_nodes nibble)[low_nibble := None])
                     in (if nb_children nibble4 \<noteq> 0 then STOP else CONTINUE,
                         Some byte, nibbles[high_nibble := Some nibble4], calls2))"

function gbt_delete_recursive ::
  "gnt_nibble option list \<Rightarrow> gbt_key \<Rightarrow> gbt_index \<Rightarrow> gbt_accessor \<Rightarrow> bool
     \<Rightarrow> error + (status \<times> gbt_byte option \<times> gnt_nibble option list \<times> gbt_data list)" where
  "gbt_delete_recursive nibbles key index accessor deallocator =
     (case accessor key index of
        None \<Rightarrow> Inr (END, None, nibbles, [])
      | Some byte \<Rightarrow>
          (case slot nibbles (GBT_HIGH_NIBBLE byte) of
             None \<Rightarrow> Inl NullDeref
           | Some nibble \<Rightarrow>
               (case slot (nb_nodes nibble) (GBT_LOW_NIBBLE byte) of
                  None \<Rightarrow> Inl NullDeref
                | Some node \<Rightarrow>
                    (case gbt_delete_recursive (nd_nibbles node) key (index + 1)
                            accessor deallocator of
                       Inl e \<Rightarrow> Inl e
                     | Inr (status, written, nibbles', calls) \<Rightarrow>
                         Inr (gbt_delete_unwind nibbles byte nibble node deallocator status
                                (case written of None \<Rightarrow> 0 | Some b \<Rightarrow> b) nibbles' calls)))))"
  by pat_completeness auto
termination
  by (relation "measure (\<lambda>(nibbles, key, index, accessor, deallocator).
                   size_list (size_option size) nibbles)")
     (auto intro: size_nodes_in_nibbles)

definition gbt_delete ::
  "gbt_trie option \<Rightarrow> gbt_key \<Rightarrow> error + (int \<times> gbt_trie option \<times> gbt_data list)" where
  "gbt_delete trie key =
     (case trie of
        None \<Rightarrow> Inr (- 1, None, [])
      | Some t \<Rightarrow>
          (case gbt_delete_recursive (b_nibbles t) key 0 (b_accessor t) (b_deallocator t) of
             Inl e \<Rightarrow> Inl e
           | Inr (status, written, nibbles', calls) \<Rightarrow>
               if status = CONTINUE
               then (case written of
                       None \<Rightarrow> Inl UninitRead
                     | Some child_byte \<Rightarrow>
                         if b_children t \<noteq> 0
                         then Inr (0, Some (t\<lparr>b_nibbles :=
                                               nibbles'[GBT_HIGH_NIBBLE child_byte := None],
                                             b_children := b_children t - 1\<rparr>), calls)
                         else Inr (0, Some (t\<lparr>b_nibbles := nibbles'\<rparr>), calls))
               else Inr (0, Some (t\<lparr>b_nibbles := nibbles'\<rparr>), calls)))"

text \<open>\<^verbatim>\<open>gbt_destroy\<close> and its two loops (lines 100--108 and 248--280).\<close>

function gbt_destroy_recursive_nibbles ::
    "gnt_nibble option list \<Rightarrow> 8 word \<Rightarrow> bool \<Rightarrow> nat \<Rightarrow> gbt_data list"
  and gbt_destroy_recursive_nodes ::
    "gnt_node option list \<Rightarrow> 8 word \<Rightarrow> bool \<Rightarrow> nat \<Rightarrow> gbt_data list" where
  "gbt_destroy_recursive_nibbles nibbles children deallocator i =
     (if children \<noteq> 0 \<and> i < 16
      then (case slot nibbles i of
              None \<Rightarrow> gbt_destroy_recursive_nibbles nibbles children deallocator (i + 1)
            | Some nb \<Rightarrow>
                gbt_destroy_recursive_nodes (nb_nodes nb) (nb_children nb) deallocator 0
                  @ gbt_destroy_recursive_nibbles nibbles (children - 1) deallocator (i + 1))
      else [])"
| "gbt_destroy_recursive_nodes nodes children deallocator i =
     (if children \<noteq> 0 \<and> i < 16
      then (case slot nodes i of
              None \<Rightarrow> gbt_destroy_recursive_nodes nodes children deallocator (i + 1)
            | Some nd \<Rightarrow>
                gbt_destroy_recursive_nibbles (nd_nibbles nd) (nd_children nd) deallocator 0
                  @ (if deallocator then [nd_data nd] else [])
                  @ gbt_destroy_recursive_nodes nodes (children - 1) deallocator (i + 1))
      else [])"
  by pat_completeness auto
termination
  by (relation "inv_image (less_than <*lex*> less_than)
        (\<lambda>x. case x of
           Inl (nibbles, children, deallocator, i) \<Rightarrow>
             (size_list (size_option size) nibbles, 16 - i)
         | Inr (nodes, children, deallocator, i) \<Rightarrow>
             (size_list (size_option size) nodes, 16 - i))")
     (auto intro: size_nibble_nodes size_node_nibbles)

definition gbt_destroy :: "gbt_trie option \<Rightarrow> int \<times> gbt_trie option \<times> gbt_data list" where
  "gbt_destroy trie =
     (case trie of
        None \<Rightarrow> (- 1, None, [])
      | Some t \<Rightarrow>
          (0, None,
           gbt_destroy_recursive_nibbles (b_nibbles t) (b_children t) (b_deallocator t) 0))"

text \<open>The guarded trie that holds what an unguarded trie holds.\<close>

definition to_gnt :: "gbt_trie \<Rightarrow> gnt_trie" where
  "to_gnt t = \<lparr>t_children = b_children t, t_nibbles = b_nibbles t,
               t_accessor = b_accessor t, t_deallocator = b_deallocator t\<rparr>"

declare gnt_insert_loop.simps [code]
declare gbt_insert_loop.simps [code]
declare gnt_search_loop.simps [simp del]
declare gbt_search_loop.simps [simp del]
declare gnt_delete_recursive.simps [simp del]
declare gbt_delete_recursive.simps [simp del]
declare gnt_count_digits.simps [simp del]
declare gnt_shift_loop.simps [simp del]
declare gbt_count_digits.simps [simp del]
declare gbt_shift_loop.simps [simp del]
declare gnt_destroy_recursive_nibbles.simps [simp del]
declare gnt_destroy_recursive_nodes.simps [simp del]
declare gbt_destroy_recursive_nibbles.simps [simp del]
declare gbt_destroy_recursive_nodes.simps [simp del]

section \<open>Notions the properties are stated with\<close>

subsection \<open>Keys as byte sequences, paths\<close>

text \<open>
  The accessor gives exactly the bytes \<open>bs\<close> for the key from index \<open>i\<close> on, and then
  ends the key.
\<close>

fun key_bytes_from :: "gnt_accessor \<Rightarrow> gnt_key \<Rightarrow> gnt_index \<Rightarrow> gnt_byte list \<Rightarrow> bool" where
  "key_bytes_from accessor key i [] = (accessor key i = None)"
| "key_bytes_from accessor key i (b # bs) =
     (accessor key i = Some b \<and> key_bytes_from accessor key (i + 1) bs)"

definition key_bytes :: "gnt_accessor \<Rightarrow> gnt_key \<Rightarrow> gnt_byte list \<Rightarrow> bool" where
  "key_bytes accessor key bs = key_bytes_from accessor key 0 bs"

text \<open>
  The byte node at the end of the path of the bytes \<open>bs\<close> below the array \<open>nibbles\<close>, when
  every slot on the path is non-null. The empty byte sequence has no node.
\<close>

fun path_node :: "gnt_nibble option list \<Rightarrow> gnt_byte list \<Rightarrow> gnt_node option" where
  "path_node nibbles [] = None"
| "path_node nibbles (b # bs) =
     (case slot nibbles (GNT_HIGH_NIBBLE b) of
        None \<Rightarrow> None
      | Some nb \<Rightarrow>
          (case slot (nb_nodes nb) (GNT_LOW_NIBBLE b) of
             None \<Rightarrow> None
           | Some nd \<Rightarrow> if bs = [] then Some nd else path_node (nd_nibbles nd) bs))"

subsection \<open>Child counters\<close>

text \<open>
  The number of non-null entries of a pointer array, and the invariant of a subtree: every
  array has 16 entries and every \<^verbatim>\<open>children\<close> counter is the number of non-null entries
  of the array beside it. \<open>slots_ok\<close> is the invariant of one array with its counter.
\<close>

definition count_slots :: "'a option list \<Rightarrow> nat" where
  "count_slots xs = length (filter (\<lambda>x. x \<noteq> None) xs)"

fun nibble_ok :: "gnt_nibble \<Rightarrow> bool" and node_ok :: "gnt_node \<Rightarrow> bool" where
  "nibble_ok (Nibble children nodes) =
     (length nodes = 16 \<and> unat children = count_slots nodes \<and>
      (\<forall>x \<in> set nodes. case x of None \<Rightarrow> True | Some nd \<Rightarrow> node_ok nd))"
| "node_ok (Node occupied children data nibbles) =
     (length nibbles = 16 \<and> unat children = count_slots nibbles \<and>
      (\<forall>x \<in> set nibbles. case x of None \<Rightarrow> True | Some nb \<Rightarrow> nibble_ok nb))"

definition trie_ok :: "gnt_trie \<Rightarrow> bool" where
  "trie_ok t =
     (length (t_nibbles t) = 16 \<and> unat (t_children t) = count_slots (t_nibbles t) \<and>
      (\<forall>x \<in> set (t_nibbles t). case x of None \<Rightarrow> True | Some nb \<Rightarrow> nibble_ok nb))"

definition slots_ok :: "('a \<Rightarrow> bool) \<Rightarrow> 'a option list \<Rightarrow> 8 word \<Rightarrow> bool" where
  "slots_ok P xs children =
     (length xs = 16 \<and> unat children = count_slots xs \<and>
      (\<forall>x \<in> set xs. case x of None \<Rightarrow> True | Some y \<Rightarrow> P y))"

text \<open>
  The tries a program can hold: the result of \<^verbatim>\<open>gnt_create\<close>, and the trie after a call of
  \<^verbatim>\<open>gnt_insert\<close> or \<^verbatim>\<open>gnt_delete\<close> that returned without undefined behaviour.
\<close>

inductive reachable :: "gnt_trie \<Rightarrow> bool" where
  create: "gnt_create calloc_ok mtx_ok cfg = Some t \<Longrightarrow> reachable t"
| insert: "reachable t \<Longrightarrow> gnt_insert (Some t) key data = Some (Inr (st, Some t', calls))
             \<Longrightarrow> reachable t'"
| delete: "reachable t \<Longrightarrow> gnt_delete (Some t) key = Inr (st, Some t', calls)
             \<Longrightarrow> reachable t'"

subsection \<open>Runs of calls\<close>

text \<open>
  The handle a program holds after a call that returned; \<open>None\<close> when the call did not
  return or its behaviour is undefined. \<open>gnt_insert_all\<close> is a run of \<^verbatim>\<open>gnt_insert\<close> calls,
  each on the handle the call before left. \<open>status_and_calls\<close> drops the trie from a result.
\<close>

definition insert_then :: "gnt_trie option \<Rightarrow> gnt_key \<Rightarrow> gnt_data \<Rightarrow> gnt_trie option" where
  "insert_then trie key data =
     (case gnt_insert trie key data of
        Some (Inr (st, trie', calls)) \<Rightarrow> trie'
      | _ \<Rightarrow> None)"

definition delete_then :: "gnt_trie option \<Rightarrow> gnt_key \<Rightarrow> gnt_trie option" where
  "delete_then trie key =
     (case gnt_delete trie key of
        Inr (st, trie', calls) \<Rightarrow> trie'
      | Inl e \<Rightarrow> None)"

fun gnt_insert_all ::
  "gnt_trie option \<Rightarrow> (gnt_key \<times> gnt_data) list \<Rightarrow> (error + gnt_trie option) option" where
  "gnt_insert_all trie [] = Some (Inr trie)"
| "gnt_insert_all trie ((key, data) # ops) =
     (case gnt_insert trie key data of
        None \<Rightarrow> None
      | Some (Inl e) \<Rightarrow> Some (Inl e)
      | Some (Inr (st, trie', calls)) \<Rightarrow> gnt_insert_all trie' ops)"

definition status_and_calls ::
  "error + (int \<times> gnt_trie option \<times> gnt_data list) \<Rightarrow> error + (int \<times> gnt_data list)" where
  "status_and_calls r = (case r of Inl e \<Rightarrow> Inl e | Inr (st, trie, calls) \<Rightarrow> Inr (st, calls))"

text \<open>
  Four addresses and a memory that holds the strings "a", "ab" and "abc" and the empty
  string there, each with its terminator, and nothing readable anywhere else; the empty
  trie with the string accessor on this memory and a deallocator; the empty trie of the
  default configuration.
\<close>

definition key_a :: gnt_key where "key_a = 0x1000"

definition key_ab :: gnt_key where "key_ab = 0x2000"

definition key_abc :: gnt_key where "key_abc = 0x3000"

definition key_empty :: gnt_key where "key_empty = 0x4000"

definition demo_mem :: memory where
  "demo_mem key =
     (if key = key_a then [0x61, 0]
      else if key = key_ab then [0x61, 0x62, 0]
      else if key = key_abc then [0x61, 0x62, 0x63, 0]
      else if key = key_empty then [0]
      else [])"

definition demo_strings :: "gnt_trie option" where
  "demo_strings =
     gnt_create True True
       (Some \<lparr>cfg_accessor = Some (gnt_accessor_string demo_mem), cfg_deallocator = True\<rparr>)"

definition demo_numbers :: gnt_trie where
  "demo_numbers = \<lparr>t_children = 0, t_nibbles = replicate 16 None,
                    t_accessor = gnt_accessor_default, t_deallocator = False\<rparr>"

subsection \<open>Insertion along a finite byte sequence\<close>

text \<open>
  The body of the insertion loop in two parts: the node it reaches for one byte (the node
  \<^verbatim>\<open>calloc\<close> returns when a slot on the way is null), and the array and counter once a
  node has been stored back at that place. \<open>insert_bytes\<close> is the loop for a byte and the
  bytes after it; \<open>path_val\<close> reads a field of the node at the end of a path, from a fresh
  node when the path is not there.
\<close>

definition insert_reach :: "gnt_nibble option list \<Rightarrow> gnt_byte \<Rightarrow> gnt_node" where
  "insert_reach nibbles byte =
     (let nibble = (case slot nibbles (GNT_HIGH_NIBBLE byte) of
                      None \<Rightarrow> calloc_nibble | Some nb \<Rightarrow> nb)
      in case slot (nb_nodes nibble) (GNT_LOW_NIBBLE byte) of
           None \<Rightarrow> calloc_node | Some nd \<Rightarrow> nd)"

definition insert_store ::
  "gnt_nibble option list \<Rightarrow> 8 word \<Rightarrow> gnt_byte \<Rightarrow> gnt_node \<Rightarrow> gnt_nibble option list \<times> 8 word" where
  "insert_store nibbles children byte node' =
     (let nibble = (case slot nibbles (GNT_HIGH_NIBBLE byte) of
                      None \<Rightarrow> calloc_nibble | Some nb \<Rightarrow> nb)
      in (nibbles[GNT_HIGH_NIBBLE byte := Some (Nibble
            (case slot (nb_nodes nibble) (GNT_LOW_NIBBLE byte) of
               None \<Rightarrow> nb_children nibble + 1 | Some nd \<Rightarrow> nb_children nibble)
            ((nb_nodes nibble)[GNT_LOW_NIBBLE byte := Some node']))],
          case slot nibbles (GNT_HIGH_NIBBLE byte) of
            None \<Rightarrow> children + 1 | Some nb \<Rightarrow> children))"

fun insert_bytes ::
  "gnt_byte \<Rightarrow> gnt_byte list \<Rightarrow> gnt_data \<Rightarrow> bool \<Rightarrow> gnt_nibble option list \<Rightarrow> 8 word
     \<Rightarrow> (gnt_nibble option list \<times> 8 word) \<times> gnt_data list" where
  "insert_bytes byte [] data deallocator nibbles children =
     (let node = insert_reach nibbles byte
      in (insert_store nibbles children byte
            (Node True (nd_children node) data (nd_nibbles node)),
          if nd_occupied node \<and> deallocator then [nd_data node] else []))"
| "insert_bytes byte (byte' # bs) data deallocator nibbles children =
     (let node = insert_reach nibbles byte;
          r = insert_bytes byte' bs data deallocator (nd_nibbles node) (nd_children node)
      in (insert_store nibbles children byte
            (Node (nd_occupied node) (snd (fst r)) (nd_data node) (fst (fst r))),
          snd r))"

definition path_val :: "(gnt_node \<Rightarrow> 'a) \<Rightarrow> gnt_nibble option list \<Rightarrow> gnt_byte list \<Rightarrow> 'a" where
  "path_val f nibbles cs = (case path_node nibbles cs of None \<Rightarrow> f calloc_node | Some nd \<Rightarrow> f nd)"

subsection \<open>Digits and the two variants\<close>

text \<open>
  The digits of \<open>n\<close> in a base, most significant digit first, and the result of an
  operation of gbt.c read as a result of gnt.c.
\<close>

function digits_msf :: "nat \<Rightarrow> nat \<Rightarrow> nat list" where
  "digits_msf base n =
     (if base < 2 \<or> n < base then [n] else digits_msf base (n div base) @ [n mod base])"
  by pat_completeness auto
termination
  by (relation "measure (\<lambda>(base, n). n)") auto

declare digits_msf.simps [simp del]

definition to_gnt_result ::
  "int \<times> gbt_trie option \<times> gbt_data list \<Rightarrow> int \<times> gnt_trie option \<times> gnt_data list" where
  "to_gnt_result r = (case r of (st, trie, calls) \<Rightarrow> (st, map_option to_gnt trie, calls))"

text \<open>
  A run of operations on a handle, for both variants: what each call returns, up to the
  first call whose behaviour is undefined or that does not return, and the handle at the
  end. A run ends with \<^verbatim>\<open>gnt_destroy\<close>, which leaves no trie.
\<close>

datatype operation = Insert gnt_key gnt_data | Search gnt_key | Delete gnt_key | Destroy

datatype outcome =
  Status int "gnt_data list" | Payload gnt_data | Undefined error | Diverges

fun gnt_run :: "gnt_trie option \<Rightarrow> operation list \<Rightarrow> outcome list \<times> gnt_trie option" where
  "gnt_run trie [] = ([], trie)"
| "gnt_run trie (Insert key data # ops) =
     (case gnt_insert trie key data of
        None \<Rightarrow> ([Diverges], trie)
      | Some (Inl e) \<Rightarrow> ([Undefined e], trie)
      | Some (Inr (st, trie', calls)) \<Rightarrow>
          (Status st calls # fst (gnt_run trie' ops), snd (gnt_run trie' ops)))"
| "gnt_run trie (Search key # ops) =
     (case gnt_search trie key of
        Inl e \<Rightarrow> ([Undefined e], trie)
      | Inr data \<Rightarrow> (Payload data # fst (gnt_run trie ops), snd (gnt_run trie ops)))"
| "gnt_run trie (Delete key # ops) =
     (case gnt_delete trie key of
        Inl e \<Rightarrow> ([Undefined e], trie)
      | Inr (st, trie', calls) \<Rightarrow>
          (Status st calls # fst (gnt_run trie' ops), snd (gnt_run trie' ops)))"
| "gnt_run trie (Destroy # ops) =
     (case gnt_destroy trie of (st, trie', calls) \<Rightarrow> ([Status st calls], trie'))"

fun gbt_run :: "gbt_trie option \<Rightarrow> operation list \<Rightarrow> outcome list \<times> gbt_trie option" where
  "gbt_run trie [] = ([], trie)"
| "gbt_run trie (Insert key data # ops) =
     (case gbt_insert trie key data of
        None \<Rightarrow> ([Diverges], trie)
      | Some (Inl e) \<Rightarrow> ([Undefined e], trie)
      | Some (Inr (st, trie', calls)) \<Rightarrow>
          (Status st calls # fst (gbt_run trie' ops), snd (gbt_run trie' ops)))"
| "gbt_run trie (Search key # ops) =
     (case gbt_search trie key of
        Inl e \<Rightarrow> ([Undefined e], trie)
      | Inr data \<Rightarrow> (Payload data # fst (gbt_run trie ops), snd (gbt_run trie ops)))"
| "gbt_run trie (Delete key # ops) =
     (case gbt_delete trie key of
        Inl e \<Rightarrow> ([Undefined e], trie)
      | Inr (st, trie', calls) \<Rightarrow>
          (Status st calls # fst (gbt_run trie' ops), snd (gbt_run trie' ops)))"
| "gbt_run trie (Destroy # ops) =
     (case gbt_destroy trie of (st, trie', calls) \<Rightarrow> ([Status st calls], trie'))"

section \<open>The child counters are kept\<close>

lemmas gnt_insert_loop_induct =
  gnt_insert_loop.raw_induct [rotated 1, consumes 1, case_names step]

lemma nibble_ok_slots: "nibble_ok nb = slots_ok node_ok (nb_nodes nb) (nb_children nb)"
  by (cases nb) (simp add: slots_ok_def)

lemma node_ok_slots: "node_ok nd = slots_ok nibble_ok (nd_nibbles nd) (nd_children nd)"
  by (cases nd) (simp add: slots_ok_def)

lemma trie_ok_slots: "trie_ok t = slots_ok nibble_ok (t_nibbles t) (t_children t)"
  by (simp add: trie_ok_def slots_ok_def)

lemma high_nibble_less: "GNT_HIGH_NIBBLE b < 16"
proof -
  have "unat (drop_bit 4 b) = unat b div 16"
    by (simp add: unat_drop_bit_eq drop_bit_eq_div unat_div)
  moreover have "unat b < 256" using unsigned_less [of b, where 'a = nat] by simp
  ultimately show ?thesis by (simp add: GNT_HIGH_NIBBLE_def)
qed

lemma low_nibble_less: "GNT_LOW_NIBBLE b < 16"
proof -
  have "b AND 0x0F \<le> 0x0F" by (rule word_and_le1)
  then show ?thesis by (simp add: GNT_LOW_NIBBLE_def word_le_nat_alt)
qed

lemma count_slots_le: "count_slots xs \<le> length xs"
  by (simp add: count_slots_def)

lemma count_slots_update:
  "i < length xs \<Longrightarrow>
     count_slots (xs[i := v]) + (if xs ! i = None then 0 else 1) =
     count_slots xs + (if v = None then 0 else 1)"
proof (induction xs arbitrary: i)
  case Nil
  then show ?case by simp
next
  case (Cons x xs)
  show ?case
  proof (cases i)
    case 0
    then show ?thesis by (auto simp: count_slots_def)
  next
    case (Suc j)
    with Cons.prems have "j < length xs" by simp
    from Cons.IH [OF this] show ?thesis using Suc
      by (cases "xs ! j"; cases v; cases x; simp add: count_slots_def)
  qed
qed

lemma count_slots_zero: "count_slots xs = 0 \<Longrightarrow> i < length xs \<Longrightarrow> xs ! i = None"
  by (induction xs arbitrary: i) (auto simp: count_slots_def nth_Cons split: if_splits nat.splits)

lemma count_slots_pos: "i < length xs \<Longrightarrow> xs ! i = Some y \<Longrightarrow> 0 < count_slots xs"
  using count_slots_zero [of xs i] by fastforce

lemma slots_ok_empty: "slots_ok P (replicate 16 None) 0"
  by (simp add: slots_ok_def count_slots_def)

lemma slots_ok_slot: "slots_ok P xs children \<Longrightarrow> slot xs i = Some y \<Longrightarrow> P y"
  by (auto simp: slots_ok_def dest!: slot_mem)

lemma slots_ok_set:
  assumes "slots_ok P xs children" and "i < 16" and "P y"
  shows "slots_ok P (xs[i := Some y])
           (case slot xs i of None \<Rightarrow> children + 1 | Some z \<Rightarrow> children)"
proof -
  from assms have len: "length xs = 16" and cnt: "unat children = count_slots xs"
    and all: "\<forall>x \<in> set xs. case x of None \<Rightarrow> True | Some y \<Rightarrow> P y"
    by (simp_all add: slots_ok_def)
  have upd: "count_slots (xs[i := Some y]) + (if xs ! i = None then 0 else 1) = count_slots xs + 1"
    using count_slots_update [of i xs "Some y"] assms(2) len by simp
  have le: "count_slots (xs[i := Some y]) \<le> 16"
    using count_slots_le [of "xs[i := Some y]"] len by simp
  have elems: "\<forall>x \<in> set (xs[i := Some y]). case x of None \<Rightarrow> True | Some y \<Rightarrow> P y"
    using all assms(3) by (auto dest!: set_update_subset_insert [THEN subsetD])
  show ?thesis
  proof (cases "slot xs i")
    case None
    then have "xs ! i = None" using assms(2) len by (simp add: slot_def)
    with upd have c: "count_slots (xs[i := Some y]) = unat children + 1" using cnt by simp
    with le have "unat children + 1 < 256" by simp
    then have "unat (children + 1) = unat children + 1"
      by (simp add: unat_add_lem [THEN iffD1])
    with c None len elems show ?thesis by (simp add: slots_ok_def)
  next
    case (Some z)
    then have "xs ! i \<noteq> None" using assms(2) len by (simp add: slot_def)
    with upd cnt Some len elems show ?thesis by (simp add: slots_ok_def)
  qed
qed

lemma slots_ok_clear:
  assumes "slots_ok P xs children" and "slot xs i = Some z"
  shows "slots_ok P (xs[i := None]) (children - 1)" and "children \<noteq> 0"
proof -
  from assms have len: "length xs = 16" and cnt: "unat children = count_slots xs"
    and all: "\<forall>x \<in> set xs. case x of None \<Rightarrow> True | Some y \<Rightarrow> P y"
    by (simp_all add: slots_ok_def)
  from assms(2) have i: "i < length xs" and xi: "xs ! i = Some z"
    by (simp_all add: slot_def split: if_splits)
  have pos: "0 < count_slots xs" using count_slots_pos [OF i xi] .
  then show nz: "children \<noteq> 0" using cnt by (auto simp: unat_eq_zero)
  have upd: "count_slots (xs[i := None]) + 1 = count_slots xs"
    using count_slots_update [OF i, of None] xi by simp
  have "unat (children - 1) = unat children - 1"
    using nz by (simp add: unat_minus_one)
  moreover have "\<forall>x \<in> set (xs[i := None]). case x of None \<Rightarrow> True | Some y \<Rightarrow> P y"
    using all by (auto dest!: set_update_subset_insert [THEN subsetD])
  ultimately show "slots_ok P (xs[i := None]) (children - 1)"
    using len cnt upd by (simp add: slots_ok_def)
qed

lemma slots_ok_zero:
  assumes "slots_ok P xs 0"
  shows "xs[i := None] = xs"
proof (cases "i < length xs")
  case True
  from assms have "count_slots xs = 0" by (simp add: slots_ok_def)
  then have "xs ! i = None" using True by (rule count_slots_zero)
  then show ?thesis by (metis list_update_id)
next
  case False
  then show ?thesis by (simp add: list_update_beyond)
qed

lemma calloc_nibble_ok: "nibble_ok calloc_nibble"
  by (simp add: calloc_nibble_def count_slots_def)

lemma calloc_node_ok: "node_ok calloc_node"
  by (simp add: calloc_node_def count_slots_def)

lemma insert_step_ok:
  assumes ok: "slots_ok nibble_ok nibbles children"
    and nibble: "nibble = (case slot nibbles (GNT_HIGH_NIBBLE byte) of
                             None \<Rightarrow> calloc_nibble | Some nb \<Rightarrow> nb)"
    and node': "node_ok node'"
  shows "slots_ok nibble_ok
           (nibbles[GNT_HIGH_NIBBLE byte := Some (Nibble
              (case slot (nb_nodes nibble) (GNT_LOW_NIBBLE byte) of
                 None \<Rightarrow> nb_children nibble + 1 | Some nd \<Rightarrow> nb_children nibble)
              ((nb_nodes nibble)[GNT_LOW_NIBBLE byte := Some node']))])
           (case slot nibbles (GNT_HIGH_NIBBLE byte) of
              None \<Rightarrow> children + 1 | Some nb \<Rightarrow> children)"
proof -
  have "nibble_ok nibble"
    using ok nibble by (auto simp: calloc_nibble_ok split: option.splits dest: slots_ok_slot)
  then have "slots_ok node_ok (nb_nodes nibble) (nb_children nibble)"
    by (simp add: nibble_ok_slots)
  from slots_ok_set [OF this low_nibble_less node']
  have "nibble_ok (Nibble
              (case slot (nb_nodes nibble) (GNT_LOW_NIBBLE byte) of
                 None \<Rightarrow> nb_children nibble + 1 | Some nd \<Rightarrow> nb_children nibble)
              ((nb_nodes nibble)[GNT_LOW_NIBBLE byte := Some node']))"
    by (simp add: nibble_ok_slots)
  from slots_ok_set [OF ok high_nibble_less this] show ?thesis .
qed

lemma insert_step_node_ok:
  assumes ok: "slots_ok nibble_ok nibbles children"
    and nibble: "nibble = (case slot nibbles (GNT_HIGH_NIBBLE byte) of
                             None \<Rightarrow> calloc_nibble | Some nb \<Rightarrow> nb)"
    and node: "node = (case slot (nb_nodes nibble) (GNT_LOW_NIBBLE byte) of
                         None \<Rightarrow> calloc_node | Some nd \<Rightarrow> nd)"
  shows "node_ok node"
proof -
  have "nibble_ok nibble"
    using ok nibble by (auto simp: calloc_nibble_ok split: option.splits dest: slots_ok_slot)
  then have "slots_ok node_ok (nb_nodes nibble) (nb_children nibble)"
    by (simp add: nibble_ok_slots)
  then show ?thesis
    using node by (auto simp: calloc_node_ok split: option.splits dest: slots_ok_slot)
qed

lemma insert_loop_ok:
  assumes "gnt_insert_loop accessor key index byte data deallocator nibbles children = Some r"
    and "slots_ok nibble_ok nibbles children"
  shows "slots_ok nibble_ok (fst r) (fst (snd r))"
  using assms
proof (induction rule: gnt_insert_loop_induct)
  case (step loop accessor key index byte data deallocator nibbles children r)
  let ?nibble = "case slot nibbles (GNT_HIGH_NIBBLE byte) of
                   None \<Rightarrow> calloc_nibble | Some nb \<Rightarrow> nb"
  let ?node = "case slot (nb_nodes ?nibble) (GNT_LOW_NIBBLE byte) of
                 None \<Rightarrow> calloc_node | Some nd \<Rightarrow> nd"
  have node_ok: "node_ok ?node"
    using insert_step_node_ok [OF step.prems refl refl] .
  show ?case
  proof (cases "accessor key (index + 1)")
    case None
    have "node_ok (Node True (nd_children ?node) data (nd_nibbles ?node))"
      using node_ok by (simp add: node_ok_slots)
    from insert_step_ok [OF step.prems refl this] show ?thesis
      using step.hyps None by (auto simp: Let_def)
  next
    case (Some byte')
    with step.hyps obtain r' where
      r': "loop accessor key (index + 1) byte' data deallocator (nd_nibbles ?node) (nd_children ?node) = Some r'"
      and r: "r = (nibbles[GNT_HIGH_NIBBLE byte := Some (Nibble
              (case slot (nb_nodes ?nibble) (GNT_LOW_NIBBLE byte) of
                 None \<Rightarrow> nb_children ?nibble + 1 | Some nd \<Rightarrow> nb_children ?nibble)
              ((nb_nodes ?nibble)[GNT_LOW_NIBBLE byte :=
                 Some (Node (nd_occupied ?node) (fst (snd r')) (nd_data ?node) (fst r'))]))],
             (case slot nibbles (GNT_HIGH_NIBBLE byte) of
                None \<Rightarrow> children + 1 | Some nb \<Rightarrow> children), snd (snd r'))"
      by (auto simp: Let_def bind_eq_Some_conv)
    have "slots_ok nibble_ok (nd_nibbles ?node) (nd_children ?node)"
      using node_ok by (simp add: node_ok_slots)
    from step.IH [OF r' this]
    have "node_ok (Node (nd_occupied ?node) (fst (snd r')) (nd_data ?node) (fst r'))"
      by (simp add: node_ok_slots)
    from insert_step_ok [OF step.prems refl this] show ?thesis
      by (simp add: r)
  qed
qed

lemma slots_ok_replace:
  assumes "slots_ok P xs children" and "slot xs i = Some z" and "P y"
  shows "slots_ok P (xs[i := Some y]) children"
proof -
  from assms(1,2) have "i < 16" by (simp add: slots_ok_def slot_def split: if_splits)
  from slots_ok_set [OF assms(1) this assms(3)] show ?thesis using assms(2) by simp
qed

lemma slot_update_same: "i < length xs \<Longrightarrow> slot (xs[i := v]) i = v"
  by (simp add: slot_def)

lemma delete_store_ok:
  assumes "slots_ok nibble_ok nibbles children"
    and "slot nibbles (GNT_HIGH_NIBBLE byte) = Some nibble"
    and "slot (nb_nodes nibble) (GNT_LOW_NIBBLE byte) = Some node"
    and "node_ok nd"
  shows "slots_ok nibble_ok
           (nibbles[GNT_HIGH_NIBBLE byte := Some (Nibble (nb_children nibble)
              ((nb_nodes nibble)[GNT_LOW_NIBBLE byte := Some nd]))]) children"
proof -
  have "nibble_ok nibble" using assms(1,2) by (rule slots_ok_slot)
  then have "slots_ok node_ok (nb_nodes nibble) (nb_children nibble)"
    by (simp add: nibble_ok_slots)
  from slots_ok_replace [OF this assms(3,4)]
  have "nibble_ok (Nibble (nb_children nibble)
              ((nb_nodes nibble)[GNT_LOW_NIBBLE byte := Some nd]))"
    by (simp add: nibble_ok_slots)
  from slots_ok_replace [OF assms(1,2) this] show ?thesis .
qed

lemma delete_remove_ok:
  assumes "slots_ok nibble_ok nibbles children"
    and "slot nibbles (GNT_HIGH_NIBBLE byte) = Some nibble"
    and "slot (nb_nodes nibble) (GNT_LOW_NIBBLE byte) = Some node"
  shows "slots_ok nibble_ok
           (nibbles[GNT_HIGH_NIBBLE byte := Some (Nibble (nb_children nibble - 1)
              ((nb_nodes nibble)[GNT_LOW_NIBBLE byte := None]))]) children"
proof -
  have "nibble_ok nibble" using assms(1,2) by (rule slots_ok_slot)
  then have "slots_ok node_ok (nb_nodes nibble) (nb_children nibble)"
    by (simp add: nibble_ok_slots)
  from slots_ok_clear(1) [OF this assms(3)]
  have "nibble_ok (Nibble (nb_children nibble - 1)
              ((nb_nodes nibble)[GNT_LOW_NIBBLE byte := None]))"
    by (simp add: nibble_ok_slots)
  from slots_ok_replace [OF assms(1,2) this] show ?thesis .
qed

lemma delete_unwind_ok:
  assumes ok: "slots_ok nibble_ok nibbles children"
    and nibble: "slot nibbles (GNT_HIGH_NIBBLE byte) = Some nibble"
    and node: "slot (nb_nodes nibble) (GNT_LOW_NIBBLE byte) = Some node"
    and child: "slots_ok nibble_ok nibbles' (nd_children node)"
    and cont: "status = CONTINUE \<Longrightarrow> \<exists>nb. slot nibbles' (GNT_HIGH_NIBBLE child_byte) = Some nb"
    and res: "gnt_delete_unwind nibbles byte nibble node deallocator status child_byte
                nibbles' calls = (status', written', nibbles'', calls')"
  shows "slots_ok nibble_ok nibbles'' children \<and> written' = Some byte \<and> status' \<noteq> END \<and>
         (\<exists>nb. slot nibbles'' (GNT_HIGH_NIBBLE byte) = Some nb)"
proof -
  note store = delete_store_ok [OF ok nibble node]
  note remove = delete_remove_ok [OF ok nibble node]
  have len: "length nibbles = 16" using ok by (simp add: slots_ok_def)
  have hi: "GNT_HIGH_NIBBLE byte < length nibbles" using len high_nibble_less by simp
  have n1: "node_ok (Node occ (nd_children node) d nibbles')" for occ d
    using child by (simp add: node_ok_slots)
  show ?thesis
  proof (cases status)
    case STOP
    with res store [OF n1] hi show ?thesis
      by (auto simp: gnt_delete_unwind_def Let_def slot_update_same)
  next
    case END
    show ?thesis
    proof (cases "nd_children node = 0")
      case True
      with END res remove hi show ?thesis
        by (auto simp: gnt_delete_unwind_def Let_def slot_update_same split: if_splits)
    next
      case False
      with END res store [OF n1] hi show ?thesis
        by (auto simp: gnt_delete_unwind_def Let_def slot_update_same split: if_splits)
    qed
  next
    case CONTINUE
    from cont [OF this] obtain nb where nb: "slot nibbles' (GNT_HIGH_NIBBLE child_byte) = Some nb"
      by blast
    from slots_ok_clear [OF child nb]
    have c3: "slots_ok nibble_ok (nibbles'[GNT_HIGH_NIBBLE child_byte := None]) (nd_children node - 1)"
      and nz: "nd_children node \<noteq> 0" by simp_all
    then have n3: "node_ok (Node occ (nd_children node - 1) d
                     (nibbles'[GNT_HIGH_NIBBLE child_byte := None]))" for occ d
      by (simp add: node_ok_slots)
    show ?thesis
    proof (cases "nd_children node - 1 = 0")
      case True
      with CONTINUE nz res remove hi show ?thesis
        by (auto simp: gnt_delete_unwind_def Let_def slot_update_same split: if_splits)
    next
      case False
      with CONTINUE nz res store [OF n3] hi show ?thesis
        by (auto simp: gnt_delete_unwind_def Let_def slot_update_same split: if_splits)
    qed
  qed
qed

lemma delete_recursive_ok:
  assumes "gnt_delete_recursive nibbles key index accessor deallocator =
             Inr (status, written, nibbles', calls)"
    and "slots_ok nibble_ok nibbles children"
  shows "slots_ok nibble_ok nibbles' children \<and>
         (status = END \<longrightarrow> written = None) \<and>
         (status \<noteq> END \<longrightarrow>
            (\<exists>b nb. written = Some b \<and> slot nibbles' (GNT_HIGH_NIBBLE b) = Some nb))"
  using assms
proof (induction nibbles key index accessor deallocator
         arbitrary: status written nibbles' calls children
         rule: gnt_delete_recursive.induct)
  case (1 nibbles key index accessor deallocator)
  show ?case
  proof (cases "accessor key index")
    case None
    with "1.prems" show ?thesis
      by (simp add: gnt_delete_recursive.simps [of nibbles])
  next
    case (Some byte)
    from "1.prems"(1) Some obtain nibble node status0 written0 nibbles0 calls0 where
      nibble: "slot nibbles (GNT_HIGH_NIBBLE byte) = Some nibble"
      and node: "slot (nb_nodes nibble) (GNT_LOW_NIBBLE byte) = Some node"
      and rec: "gnt_delete_recursive (nd_nibbles node) key (index + 1) accessor deallocator =
                  Inr (status0, written0, nibbles0, calls0)"
      and res: "gnt_delete_unwind nibbles byte nibble node deallocator status0
                  (case written0 of None \<Rightarrow> 0 | Some b \<Rightarrow> b) nibbles0 calls0 =
                  (status, written, nibbles', calls)"
      by (subst (asm) gnt_delete_recursive.simps)
         (auto split: option.splits sum.splits)
    have "nibble_ok nibble" using "1.prems"(2) nibble by (rule slots_ok_slot)
    then have "node_ok node" using node by (auto simp: nibble_ok_slots dest: slots_ok_slot)
    then have "slots_ok nibble_ok (nd_nibbles node) (nd_children node)"
      by (simp add: node_ok_slots)
    from "1.IH" [OF Some nibble node rec this]
    have child: "slots_ok nibble_ok nibbles0 (nd_children node)"
      and cont: "status0 = CONTINUE \<Longrightarrow>
                   \<exists>nb. slot nibbles0 (GNT_HIGH_NIBBLE (case written0 of None \<Rightarrow> 0 | Some b \<Rightarrow> b)) = Some nb"
      by auto
    from delete_unwind_ok [OF "1.prems"(2) nibble node child cont res]
    show ?thesis by auto
  qed
qed

lemma create_ok: "gnt_create calloc_ok mtx_ok cfg = Some t \<Longrightarrow> trie_ok t"
  by (auto simp: gnt_create_def trie_ok_slots slots_ok_empty Let_def split: if_splits)

lemma insert_ok:
  assumes "gnt_insert (Some t) key data = Some (Inr (st, Some t', calls))" and "trie_ok t"
  shows "trie_ok t'"
proof -
  from assms(1) obtain byte r where
    r: "gnt_insert_loop (t_accessor t) key 0 byte data (t_deallocator t)
          (t_nibbles t) (t_children t) = Some r"
    and t': "t' = t\<lparr>t_nibbles := fst r, t_children := fst (snd r)\<rparr>"
    by (auto simp: gnt_insert_def bind_eq_Some_conv split: option.splits)
  from insert_loop_ok [OF r] assms(2) show ?thesis
    by (simp add: trie_ok_slots t')
qed

lemma delete_ok:
  assumes "gnt_delete (Some t) key = Inr (st, Some t', calls)" and "trie_ok t"
  shows "trie_ok t'"
proof -
  from assms(1) obtain status written nibbles' where
    rec: "gnt_delete_recursive (t_nibbles t) key 0 (t_accessor t) (t_deallocator t) =
            Inr (status, written, nibbles', calls)"
    by (auto simp: gnt_delete_def split: sum.splits if_splits option.splits)
  from assms(2) have ok: "slots_ok nibble_ok (t_nibbles t) (t_children t)"
    by (simp add: trie_ok_slots)
  from delete_recursive_ok [OF rec ok]
  have ok': "slots_ok nibble_ok nibbles' (t_children t)"
    and wr: "status \<noteq> END \<longrightarrow>
               (\<exists>b nb. written = Some b \<and> slot nibbles' (GNT_HIGH_NIBBLE b) = Some nb)"
    by simp_all
  show ?thesis
  proof (cases "status = CONTINUE")
    case True
    with wr obtain b nb where b: "written = Some b"
      and nb: "slot nibbles' (GNT_HIGH_NIBBLE b) = Some nb" by auto
    from slots_ok_clear [OF ok' nb] assms(1) rec True b show ?thesis
      by (auto simp: gnt_delete_def trie_ok_slots)
  next
    case False
    with assms(1) rec ok' show ?thesis
      by (auto simp: gnt_delete_def trie_ok_slots)
  qed
qed

section \<open>Evaluation on concrete tries\<close>

lemma reachable_insert_then:
  "reachable t \<Longrightarrow> insert_then (Some t) key data = Some t' \<Longrightarrow> reachable t'"
  by (auto simp: insert_then_def split: option.splits sum.splits intro: reachable.insert)

lemma reachable_delete_then:
  "reachable t \<Longrightarrow> delete_then (Some t) key = Some t' \<Longrightarrow> reachable t'"
  by (auto simp: delete_then_def split: option.splits sum.splits intro: reachable.delete)

lemmas eval_defs = gnt_create_def insert_then_def delete_then_def gnt_insert_def gnt_delete_def
  gnt_search_def gnt_destroy_def
  gnt_accessor_default_def gnt_accessor_string_def strlen_def
  gnt_insert_loop.simps gnt_search_loop.simps gnt_delete_recursive.simps gnt_delete_unwind_def
  gnt_count_digits.simps gnt_shift_loop.simps
  GNT_HIGH_NIBBLE_def GNT_LOW_NIBBLE_def slot_def calloc_node_def calloc_nibble_def Let_def

lemmas demo_defs = eval_defs demo_mem_def demo_strings_def status_and_calls_def
  key_a_def key_ab_def key_abc_def key_empty_def
  gnt_destroy_recursive_nibbles.simps gnt_destroy_recursive_nodes.simps

section \<open>Search and insertion along a byte sequence\<close>

lemma search_loop_path:
  "key_bytes_from accessor key i bs \<Longrightarrow> bs \<noteq> [] \<Longrightarrow>
     gnt_search_loop accessor key i nibbles node =
       Inr (case path_node nibbles bs of None \<Rightarrow> 0 | Some nd \<Rightarrow> nd_data nd)"
proof (induction bs arbitrary: i nibbles node)
  case Nil
  then show ?case by simp
next
  case (Cons b bs)
  show ?case
  proof (cases "bs = []")
    case True
    with Cons.prems show ?thesis
      by (subst gnt_search_loop.simps, subst gnt_search_loop.simps)
         (simp split: option.splits)
  next
    case False
    with Cons.prems Cons.IH show ?thesis
      by (subst gnt_search_loop.simps) (simp split: option.splits)
  qed
qed

lemma insert_loop_bytes:
  "key_bytes_from accessor key (index + 1) bs \<Longrightarrow>
     gnt_insert_loop accessor key index byte data deallocator nibbles children =
       Some (fst (fst (insert_bytes byte bs data deallocator nibbles children)),
             snd (fst (insert_bytes byte bs data deallocator nibbles children)),
             snd (insert_bytes byte bs data deallocator nibbles children))"
proof (induction bs arbitrary: index byte nibbles children)
  case Nil
  then have e: "accessor key (Suc index) = None" by simp
  show ?case
    by (subst gnt_insert_loop.simps)
       (simp add: Let_def insert_reach_def insert_store_def e)
next
  case (Cons byte' bs)
  from Cons.prems have b': "accessor key (Suc index) = Some byte'"
    and rest: "key_bytes_from accessor key (Suc index + 1) bs" by simp_all
  show ?case
    by (subst gnt_insert_loop.simps)
       (simp add: Let_def insert_reach_def insert_store_def b' Cons.IH [OF rest])
qed

lemma slot_replicate_None [simp]: "slot (replicate n None) i = None"
  by (simp add: slot_def)

lemma path_node_empty: "path_node (replicate n None) cs = None"
  by (cases cs) simp_all

lemma path_val_empty: "path_val f (replicate n None) cs = f calloc_node"
  by (simp add: path_val_def path_node_empty)

lemma path_val_reach:
  "path_val f nibbles (b # cs) =
     (if cs = [] then f (insert_reach nibbles b)
      else path_val f (nd_nibbles (insert_reach nibbles b)) cs)"
  by (auto simp: path_val_def insert_reach_def calloc_nibble_def path_node_empty
           split: option.splits)
     (simp_all add: calloc_node_def path_node_empty)

lemma nibbles_inj:
  assumes "GNT_HIGH_NIBBLE c = GNT_HIGH_NIBBLE b" and "GNT_LOW_NIBBLE c = GNT_LOW_NIBBLE b"
  shows "c = b"
proof -
  from assms(1) have h: "drop_bit 4 c = drop_bit 4 b"
    by (simp add: GNT_HIGH_NIBBLE_def word_unat_eq_iff)
  from assms(2) have "c AND 0x0F = b AND 0x0F"
    by (simp add: GNT_LOW_NIBBLE_def word_unat_eq_iff)
  then have l: "take_bit 4 c = take_bit 4 b"
    by (simp add: take_bit_eq_mask mask_eq_exp_minus_1)
  have "c = push_bit 4 (drop_bit 4 c) + take_bit 4 c" by (simp add: bits_ident)
  also have "\<dots> = push_bit 4 (drop_bit 4 b) + take_bit 4 b" by (simp add: h l)
  also have "\<dots> = b" by (simp add: bits_ident)
  finally show ?thesis .
qed

lemma path_val_store_same:
  assumes "slots_ok nibble_ok nibbles children"
  shows "path_val f (fst (insert_store nibbles children b nd)) (b # cs) =
           (if cs = [] then f nd else path_val f (nd_nibbles nd) cs)"
proof -
  let ?nibble = "case slot nibbles (GNT_HIGH_NIBBLE b) of
                   None \<Rightarrow> calloc_nibble | Some nb \<Rightarrow> nb"
  have len: "length nibbles = 16" using assms by (simp add: slots_ok_def)
  have "nibble_ok ?nibble"
    using assms by (auto simp: calloc_nibble_ok split: option.splits dest: slots_ok_slot)
  then have len': "length (nb_nodes ?nibble) = 16" by (simp add: nibble_ok_slots slots_ok_def)
  show ?thesis
    using len len' high_nibble_less [of b] low_nibble_less [of b]
    by (simp add: path_val_def insert_store_def Let_def slot_update_same)
qed

lemma slot_update_other: "i \<noteq> j \<Longrightarrow> slot (xs[i := v]) j = slot xs j"
  by (simp add: slot_def)

lemma path_val_store_other:
  assumes "slots_ok nibble_ok nibbles children" and "c \<noteq> b"
  shows "path_val f (fst (insert_store nibbles children b nd)) (c # cs) =
           path_val f nibbles (c # cs)"
proof (cases "GNT_HIGH_NIBBLE c = GNT_HIGH_NIBBLE b")
  case False
  then show ?thesis
    by (simp add: path_val_def insert_store_def Let_def slot_update_other)
next
  case True
  with assms(2) have low: "GNT_LOW_NIBBLE b \<noteq> GNT_LOW_NIBBLE c"
    using nibbles_inj [of c b] by auto
  have len: "length nibbles = 16" using assms by (simp add: slots_ok_def)
  show ?thesis
    using len high_nibble_less [of b] True low
    by (auto simp: path_val_def insert_store_def Let_def slot_update_same slot_update_other
                   calloc_nibble_def
             split: option.splits)
qed

lemma insert_reach_ok:
  "slots_ok nibble_ok nibbles children \<Longrightarrow> node_ok (insert_reach nibbles b)"
  using insert_step_node_ok [OF _ refl refl, of nibbles children b]
  by (simp add: insert_reach_def Let_def)

lemma insert_bytes_data:
  assumes "slots_ok nibble_ok nibbles children" and "cs \<noteq> []"
  shows "path_val nd_data (fst (fst (insert_bytes b bs data deallocator nibbles children))) cs =
           (if cs = b # bs then data else path_val nd_data nibbles cs)"
  using assms
proof (induction bs arbitrary: b nibbles children cs)
  case Nil
  from Nil.prems(2) obtain c cs' where cs: "cs = c # cs'" by (cases cs) auto
  show ?case
  proof (cases "c = b")
    case True
    then show ?thesis
      using path_val_store_same [OF Nil.prems(1), of nd_data b _ cs']
      by (simp add: cs Let_def path_val_reach)
  next
    case False
    then show ?thesis
      using path_val_store_other [OF Nil.prems(1) False, of nd_data _ cs']
      by (simp add: cs Let_def)
  qed
next
  case (Cons b' bs)
  from Cons.prems(2) obtain c cs' where cs: "cs = c # cs'" by (cases cs) auto
  have sub: "slots_ok nibble_ok (nd_nibbles (insert_reach nibbles b))
               (nd_children (insert_reach nibbles b))"
    using insert_reach_ok [OF Cons.prems(1), of b] by (simp add: node_ok_slots)
  show ?case
  proof (cases "c = b")
    case True
    show ?thesis
    proof (cases "cs' = []")
      case True
      with \<open>c = b\<close> show ?thesis
        using path_val_store_same [OF Cons.prems(1), of nd_data b _ cs']
        by (simp add: cs Let_def path_val_reach)
    next
      case False
      with \<open>c = b\<close> show ?thesis
        using path_val_store_same [OF Cons.prems(1), of nd_data b _ cs']
          Cons.IH [OF sub False, of b']
        by (simp add: cs Let_def path_val_reach)
    qed
  next
    case False
    then show ?thesis
      using path_val_store_other [OF Cons.prems(1) False, of nd_data _ cs']
      by (simp add: cs Let_def)
  qed
qed


lemma key_bytes_from_unique:
  "key_bytes_from accessor key i bs \<Longrightarrow> key_bytes_from accessor key i cs \<Longrightarrow> bs = cs"
proof (induction bs arbitrary: i cs)
  case Nil
  then show ?case by (cases cs) simp_all
next
  case (Cons b bs)
  then show ?case by (cases cs) auto
qed

lemma key_bytes_unique:
  "key_bytes accessor key bs \<Longrightarrow> key_bytes accessor key cs \<Longrightarrow> bs = cs"
  unfolding key_bytes_def by (rule key_bytes_from_unique)

lemma search_path_val:
  assumes "key_bytes (t_accessor t) key cs" and "cs \<noteq> []"
  shows "gnt_search (Some t) key = Inr (path_val nd_data (t_nibbles t) cs)"
  using assms
  by (simp add: gnt_search_def key_bytes_def search_loop_path path_val_def calloc_node_def
           split: option.splits)

lemma insert_result:
  assumes "key_bytes (t_accessor t) key (b # bs)"
  shows "gnt_insert (Some t) key data =
           Some (Inr (0, Some (t\<lparr>t_nibbles := fst (fst (insert_bytes b bs data (t_deallocator t)
                                                  (t_nibbles t) (t_children t))),
                                t_children := snd (fst (insert_bytes b bs data (t_deallocator t)
                                                  (t_nibbles t) (t_children t)))\<rparr>),
                      snd (insert_bytes b bs data (t_deallocator t) (t_nibbles t) (t_children t))))"
proof -
  from assms have b: "t_accessor t key 0 = Some b"
    and rest: "key_bytes_from (t_accessor t) key (0 + 1) bs"
    by (simp_all add: key_bytes_def)
  show ?thesis
    by (simp add: gnt_insert_def b insert_loop_bytes [OF rest])
qed

lemma insert_search_step:
  assumes ok: "trie_ok t" and key: "key_bytes (t_accessor t) key (b # bs)"
  shows "\<exists>t' calls. gnt_insert (Some t) key data = Some (Inr (0, Some t', calls)) \<and>
           trie_ok t' \<and> t_accessor t' = t_accessor t \<and>
           (\<forall>key' cs. key_bytes (t_accessor t) key' cs \<longrightarrow> cs \<noteq> [] \<longrightarrow>
              gnt_search (Some t') key' =
                (if key_bytes (t_accessor t) key cs then Inr data else gnt_search (Some t) key'))"
proof -
  let ?r = "insert_bytes b bs data (t_deallocator t) (t_nibbles t) (t_children t)"
  let ?t' = "t\<lparr>t_nibbles := fst (fst ?r), t_children := snd (fst ?r)\<rparr>"
  have ins: "gnt_insert (Some t) key data = Some (Inr (0, Some ?t', snd ?r))"
    using insert_result [OF key] .
  have ok': "trie_ok ?t'" using ins ok by (rule insert_ok)
  from ok have sl: "slots_ok nibble_ok (t_nibbles t) (t_children t)" by (simp add: trie_ok_slots)
  have "gnt_search (Some ?t') key' =
          (if key_bytes (t_accessor t) key cs then Inr data else gnt_search (Some t) key')"
    if k': "key_bytes (t_accessor t) key' cs" and ne: "cs \<noteq> []" for key' cs
  proof -
    have same: "key_bytes (t_accessor t) key cs \<longleftrightarrow> cs = b # bs"
      using key key_bytes_unique by blast
    have "gnt_search (Some ?t') key' = Inr (path_val nd_data (t_nibbles ?t') cs)"
      using k' ne by (intro search_path_val) simp_all
    also have "\<dots> = Inr (if cs = b # bs then data else path_val nd_data (t_nibbles t) cs)"
      using insert_bytes_data [OF sl ne] by simp
    also have "\<dots> = (if key_bytes (t_accessor t) key cs then Inr data
                     else gnt_search (Some t) key')"
      using search_path_val [OF k' ne] same by simp
    finally show ?thesis .
  qed
  with ins ok' show ?thesis by (intro exI [of _ ?t'] exI [of _ "snd ?r"]) simp
qed

section \<open>The default accessors and digits\<close>

lemma and_255_take_bit: "(x :: 64 word) AND 255 = take_bit 8 x"
proof -
  have "(255 :: 64 word) = mask 8" by (simp add: mask_eq_exp_minus_1)
  then show ?thesis by (simp add: take_bit_eq_mask)
qed

lemma byte_of_key: "(ucast ((x::64 word) AND 255) :: 8 word) = of_nat (unat x mod 256)"
proof -
  have "unat (ucast (x AND 255) :: 8 word) = unat (of_nat (unat x mod 256) :: 8 word)"
    unfolding and_255_take_bit unsigned_ucast_eq unsigned_take_bit_eq unat_of_nat
    by (simp add: take_bit_eq_mod)
  then show ?thesis by (simp only: word_unat_eq_iff)
qed

lemma unat_drop_bit_key: "unat (drop_bit k (x::64 word)) = unat x div 2 ^ k"
  unfolding unat_drop_bit_eq by (simp add: drop_bit_eq_div)

lemma byte_of_key_mod_10: "(ucast ((x::64 word) mod 10) :: 8 word) = of_nat (unat x mod 10)"
proof -
  have "unat (ucast (x mod 10) :: 8 word) = unat (of_nat (unat x mod 10) :: 8 word)"
    unfolding unsigned_ucast_eq unat_of_nat unat_mod
    by (simp add: take_bit_eq_mod)
  then show ?thesis by (simp only: word_unat_eq_iff)
qed

lemma digits_msf_length_pos: "0 < length (digits_msf base n)"
  by (subst digits_msf.simps) simp

lemma digits_msf_length_le:
  "2 \<le> base \<Longrightarrow> n < base ^ Suc k \<Longrightarrow> length (digits_msf base n) \<le> Suc k"
proof (induction k arbitrary: n)
  case 0
  then show ?case by (subst digits_msf.simps) simp
next
  case (Suc k)
  show ?case
  proof (cases "n < base")
    case True
    then show ?thesis by (subst digits_msf.simps) simp
  next
    case False
    from Suc.prems have "n div base < base ^ Suc k"
      by (simp add: less_mult_imp_div_less mult.commute)
    from Suc.IH [OF Suc.prems(1) this] False Suc.prems(1) show ?thesis
      by (subst digits_msf.simps) simp
  qed
qed

lemma digits_msf_nth:
  "2 \<le> base \<Longrightarrow> index < length (digits_msf base n) \<Longrightarrow>
     digits_msf base n ! index = (n div base ^ (length (digits_msf base n) - 1 - index)) mod base"
proof (induction base n arbitrary: index rule: digits_msf.induct)
  case (1 base n)
  show ?case
  proof (cases "n < base")
    case True
    with "1.prems" show ?thesis by (subst (1 2) digits_msf.simps) (simp add: digits_msf.simps [of base n])
  next
    case False
    with "1.prems"(1) have unf: "digits_msf base n = digits_msf base (n div base) @ [n mod base]"
      by (subst digits_msf.simps) simp
    let ?ds = "digits_msf base (n div base)"
    show ?thesis
    proof (cases "index < length ?ds")
      case True
      have "Suc (length ?ds - 1 - index) = length ?ds - index" using True by simp
      then have "n div base ^ (length ?ds - index) =
                   n div base div base ^ (length ?ds - 1 - index)"
        by (metis div_mult2_eq power_Suc)
      with "1.IH" [OF _ "1.prems"(1) True] False "1.prems"(1) True show ?thesis
        by (simp add: unf nth_append)
    next
      case False
      with "1.prems"(2) have "index = length ?ds" by (simp add: unf)
      then show ?thesis by (simp add: unf nth_append)
    qed
  qed
qed

lemma gnt_count_digits_eq:
  "gnt_count_digits digits temp = digits + of_nat (length (digits_msf 256 (unat temp)))"
proof (induction digits temp rule: gnt_count_digits.induct)
  case (1 digits temp)
  have u: "unat (drop_bit 8 temp) = unat temp div 256"
    using unat_drop_bit_key [of 8 temp] by simp
  show ?case
  proof (cases "0 < drop_bit 8 temp")
    case True
    then have ge: "\<not> unat temp < 256" using u by (simp add: word_less_nat_alt)
    have "digits_msf 256 (unat temp) = digits_msf 256 (unat temp div 256) @ [unat temp mod 256]"
      using ge by (subst digits_msf.simps) simp
    with "1.IH" [OF refl refl True] True u show ?thesis
      by (subst gnt_count_digits.simps) (simp add: Let_def)
  next
    case False
    then have "unat temp < 256" using u by (simp add: word_less_nat_alt)
    then have "digits_msf 256 (unat temp) = [unat temp]"
      by (subst digits_msf.simps) simp
    with False show ?thesis
      by (subst gnt_count_digits.simps) (simp add: Let_def)
  qed
qed

lemma gbt_count_digits_eq:
  "gbt_count_digits digits temp = digits + of_nat (length (digits_msf 10 (unat temp)))"
proof (induction digits temp rule: gbt_count_digits.induct)
  case (1 digits temp)
  have u: "unat (temp div 10) = unat temp div 10" by (simp add: unat_div)
  show ?case
  proof (cases "0 < temp div 10")
    case True
    then have ge: "\<not> unat temp < 10" using u by (simp add: word_less_nat_alt)
    have "digits_msf 10 (unat temp) = digits_msf 10 (unat temp div 10) @ [unat temp mod 10]"
      using ge by (subst digits_msf.simps) simp
    with "1.IH" [OF refl refl True] True u show ?thesis
      by (subst gbt_count_digits.simps) (simp add: Let_def)
  next
    case False
    then have "unat temp < 10" using u by (simp add: word_less_nat_alt)
    then have "digits_msf 10 (unat temp) = [unat temp]"
      by (subst digits_msf.simps) simp
    with False show ?thesis
      by (subst gbt_count_digits.simps) (simp add: Let_def)
  qed
qed

lemma unat_key_less: "unat (key :: 64 word) < 2 ^ 64"
  using unsigned_less [of key, where 'a = nat] by simp

lemma gnt_digits_length: "length (digits_msf 256 (unat (key :: 64 word))) \<le> 8"
proof -
  have "unat key < 256 ^ Suc 7" using unat_key_less [of key] by simp
  from digits_msf_length_le [OF _ this] show ?thesis by simp
qed

lemma gbt_digits_length: "length (digits_msf 10 (unat (key :: 64 word))) \<le> 20"
proof -
  have "unat key < 10 ^ Suc 19" using unat_key_less [of key] by simp
  from digits_msf_length_le [OF _ this] show ?thesis by simp
qed

lemma gnt_count_digits_unat:
  "unat (gnt_count_digits 0 key) = length (digits_msf 256 (unat key))"
  using gnt_digits_length [of key] by (simp add: gnt_count_digits_eq unat_of_nat)

lemma gbt_count_digits_unat:
  "unat (gbt_count_digits 0 key) = length (digits_msf 10 (unat key))"
  using gbt_digits_length [of key] by (simp add: gbt_count_digits_eq unat_of_nat)

lemma gnt_shift_loop_unat:
  "unat (gnt_shift_loop i n key) = unat key div 256 ^ (n - i)"
proof (induction i n key rule: gnt_shift_loop.induct)
  case (1 i n key)
  show ?case
  proof (cases "i < n")
    case True
    then have "n - i = Suc (n - (i + 1))" by simp
    then have "unat key div 256 ^ (n - i) = unat key div 256 div 256 ^ (n - (i + 1))"
      by (metis div_mult2_eq power_Suc)
    with "1.IH" [OF True] True unat_drop_bit_key [of 8 key] show ?thesis
      by (subst gnt_shift_loop.simps) simp
  next
    case False
    then show ?thesis by (subst gnt_shift_loop.simps) simp
  qed
qed

lemma gbt_shift_loop_unat:
  "unat (gbt_shift_loop i n key) = unat key div 10 ^ (n - i)"
proof (induction i n key rule: gbt_shift_loop.induct)
  case (1 i n key)
  show ?case
  proof (cases "i < n")
    case True
    then have "n - i = Suc (n - (i + 1))" by simp
    then have "unat key div 10 ^ (n - i) = unat key div 10 div 10 ^ (n - (i + 1))"
      by (metis div_mult2_eq power_Suc)
    with "1.IH" [OF True] True show ?thesis
      by (subst gbt_shift_loop.simps) (simp add: unat_div)
  next
    case False
    then show ?thesis by (subst gbt_shift_loop.simps) simp
  qed
qed

lemma gnt_accessor_default_digits:
  "gnt_accessor_default key index =
     (if index < length (digits_msf 256 (unat key))
      then Some (of_nat (digits_msf 256 (unat key) ! index)) else None)"
  by (simp add: gnt_accessor_default_def Let_def gnt_count_digits_unat byte_of_key
                gnt_shift_loop_unat digits_msf_nth not_le)

lemma gbt_accessor_default_digits:
  "gbt_accessor_default key index =
     (if index < length (digits_msf 10 (unat key))
      then Some (of_nat (digits_msf 10 (unat key) ! index)) else None)"
  by (simp add: gbt_accessor_default_def Let_def gbt_count_digits_unat byte_of_key_mod_10
                gbt_shift_loop_unat digits_msf_nth not_le)

section \<open>gbt.c against gnt.c\<close>

lemma gbt_nibble_macros:
  "GBT_HIGH_NIBBLE b = GNT_HIGH_NIBBLE b" "GBT_LOW_NIBBLE b = GNT_LOW_NIBBLE b"
  by (simp_all add: GBT_HIGH_NIBBLE_def GNT_HIGH_NIBBLE_def GBT_LOW_NIBBLE_def GNT_LOW_NIBBLE_def)

lemma gbt_search_loop_eq:
  "gbt_search_loop accessor key index nibbles node =
     gnt_search_loop accessor key index nibbles node"
proof (induction accessor key index nibbles node rule: gnt_search_loop.induct)
  case (1 accessor key index nibbles node)
  show ?case
    using "1.IH"
    by (subst gbt_search_loop.simps, subst gnt_search_loop.simps)
       (auto simp: gbt_nibble_macros split: option.splits)
qed

lemma gbt_delete_unwind_eq:
  "gbt_delete_unwind nibbles byte nibble node deallocator status child_byte nibbles' calls =
     gnt_delete_unwind nibbles byte nibble node deallocator status child_byte nibbles' calls"
  unfolding gbt_delete_unwind_def gnt_delete_unwind_def gbt_nibble_macros by (rule refl)

lemma gbt_delete_recursive_eq:
  "gbt_delete_recursive nibbles key index accessor deallocator =
     gnt_delete_recursive nibbles key index accessor deallocator"
proof (induction nibbles key index accessor deallocator rule: gnt_delete_recursive.induct)
  case (1 nibbles key index accessor deallocator)
  show ?case
    using "1.IH"
    by (subst gbt_delete_recursive.simps, subst gnt_delete_recursive.simps)
       (auto simp: gbt_nibble_macros gbt_delete_unwind_eq split: option.splits sum.splits)
qed

lemma gbt_destroy_recursive_eq:
  "gbt_destroy_recursive_nibbles nibbles children deallocator i =
     gnt_destroy_recursive_nibbles nibbles children deallocator i"
  "gbt_destroy_recursive_nodes nodes children deallocator i =
     gnt_destroy_recursive_nodes nodes children deallocator i"
proof (induction nibbles children deallocator i and nodes children deallocator i
         rule: gnt_destroy_recursive_nibbles_gnt_destroy_recursive_nodes.induct)
  case (1 nibbles children deallocator i)
  show ?case
    using 1
    by (subst gbt_destroy_recursive_nibbles.simps, subst gnt_destroy_recursive_nibbles.simps)
       (auto split: option.splits)
next
  case (2 nodes children deallocator i)
  show ?case
    using 2
    by (subst gbt_destroy_recursive_nodes.simps, subst gnt_destroy_recursive_nodes.simps)
       (auto split: option.splits)
qed

lemmas gbt_insert_loop_induct =
  gbt_insert_loop.raw_induct [rotated 1, consumes 1, case_names step]

lemma gbt_insert_loop_le:
  "gbt_insert_loop accessor key index byte data deallocator nibbles children = Some r \<Longrightarrow>
     gnt_insert_loop accessor key index byte data deallocator nibbles children = Some r"
proof (induction rule: gbt_insert_loop_induct)
  case (step loop accessor key index byte data deallocator nibbles children r)
  show ?case
  proof (cases "accessor key (index + 1)")
    case None
    with step.hyps show ?thesis
      by (subst gnt_insert_loop.simps) (simp add: Let_def gbt_nibble_macros)
  next
    case (Some byte')
    with step.hyps obtain r' where
      "loop accessor key (index + 1) byte' data deallocator
         (nd_nibbles (insert_reach nibbles byte)) (nd_children (insert_reach nibbles byte)) = Some r'"
      by (auto simp: Let_def gbt_nibble_macros bind_eq_Some_conv insert_reach_def)
    from this step.IH [OF this] step.hyps Some show ?thesis
      by (subst gnt_insert_loop.simps) (simp add: Let_def gbt_nibble_macros insert_reach_def)
  qed
qed

lemma gnt_insert_loop_le:
  "gnt_insert_loop accessor key index byte data deallocator nibbles children = Some r \<Longrightarrow>
     gbt_insert_loop accessor key index byte data deallocator nibbles children = Some r"
proof (induction rule: gnt_insert_loop_induct)
  case (step loop accessor key index byte data deallocator nibbles children r)
  show ?case
  proof (cases "accessor key (index + 1)")
    case None
    with step.hyps show ?thesis
      by (subst gbt_insert_loop.simps) (simp add: Let_def gbt_nibble_macros)
  next
    case (Some byte')
    with step.hyps obtain r' where
      "loop accessor key (index + 1) byte' data deallocator
         (nd_nibbles (insert_reach nibbles byte)) (nd_children (insert_reach nibbles byte)) = Some r'"
      by (auto simp: Let_def bind_eq_Some_conv insert_reach_def)
    from this step.IH [OF this] step.hyps Some show ?thesis
      by (subst gbt_insert_loop.simps) (simp add: Let_def gbt_nibble_macros insert_reach_def)
  qed
qed

lemma gbt_insert_loop_eq:
  "gbt_insert_loop accessor key index byte data deallocator nibbles children =
     gnt_insert_loop accessor key index byte data deallocator nibbles children"
proof (cases "gbt_insert_loop accessor key index byte data deallocator nibbles children")
  case None
  then show ?thesis
    using gnt_insert_loop_le [of accessor key index byte data deallocator nibbles children]
    by (cases "gnt_insert_loop accessor key index byte data deallocator nibbles children") auto
next
  case (Some r)
  then show ?thesis using gbt_insert_loop_le [OF Some] by simp
qed

lemma gbt_search_eq: "gbt_search trie key = gnt_search (map_option to_gnt trie) key"
  by (cases trie) (simp_all add: gbt_search_def gnt_search_def gbt_search_loop_eq to_gnt_def)

lemma gbt_destroy_eq: "to_gnt_result (gbt_destroy trie) = gnt_destroy (map_option to_gnt trie)"
  by (cases trie)
     (simp_all add: gbt_destroy_def gnt_destroy_def gbt_destroy_recursive_eq to_gnt_def
                    to_gnt_result_def)

lemma gbt_delete_eq:
  "map_sum id to_gnt_result (gbt_delete trie key) = gnt_delete (map_option to_gnt trie) key"
  by (cases trie)
     (auto simp: gbt_delete_def gnt_delete_def gbt_delete_recursive_eq to_gnt_def
                 to_gnt_result_def gbt_nibble_macros
           split: sum.splits option.splits)

lemma gbt_insert_eq:
  "map_option (map_sum id to_gnt_result) (gbt_insert trie key data) =
     gnt_insert (map_option to_gnt trie) key data"
  by (cases trie)
     (auto simp: gbt_insert_def gnt_insert_def gbt_insert_loop_eq to_gnt_def
                 to_gnt_result_def map_option_case bind_eq_None_conv
           split: option.splits Option.bind_splits)



lemmas key_defs = key_bytes_def demo_defs

lemma gbt_run_eq:
  "gnt_run (map_option to_gnt trie) ops =
     (fst (gbt_run trie ops), map_option to_gnt (snd (gbt_run trie ops)))"
proof (induction trie ops rule: gbt_run.induct)
  case (1 trie)
  show ?case by simp
next
  case (2 trie key data ops)
  show ?case
  proof (cases "gbt_insert trie key data")
    case None
    with gbt_insert_eq [of trie key data, symmetric] show ?thesis by simp
  next
    case (Some r)
    show ?thesis
    proof (cases r)
      case (Inl e)
      with Some gbt_insert_eq [of trie key data, symmetric] show ?thesis by simp
    next
      case (Inr x)
      obtain st trie' calls where x: "x = (st, trie', calls)" by (cases x)
      from Some Inr x gbt_insert_eq [of trie key data, symmetric]
      have "gnt_insert (map_option to_gnt trie) key data =
              Some (Inr (st, map_option to_gnt trie', calls))"
        by (simp add: to_gnt_result_def)
      with Some Inr x "2.IH" [OF Some Inr x [symmetric] refl] show ?thesis by simp
    qed
  qed
next
  case (3 trie key ops)
  show ?case
  proof (cases "gbt_search trie key")
    case (Inl e)
    with gbt_search_eq [of trie key, symmetric] show ?thesis by simp
  next
    case (Inr data)
    with gbt_search_eq [of trie key, symmetric] "3.IH" [OF Inr] show ?thesis by simp
  qed
next
  case (4 trie key ops)
  show ?case
  proof (cases "gbt_delete trie key")
    case (Inl e)
    with gbt_delete_eq [of trie key, symmetric] show ?thesis by (auto simp: map_sum_def split: sum.splits)
  next
    case (Inr x)
    obtain st trie' calls where x: "x = (st, trie', calls)" by (cases x)
    from Inr x gbt_delete_eq [of trie key, symmetric]
    have "gnt_delete (map_option to_gnt trie) key = Inr (st, map_option to_gnt trie', calls)"
      by (simp add: to_gnt_result_def)
    with Inr x "4.IH" [OF Inr x [symmetric] refl] show ?thesis by simp
  qed
next
  case (5 trie ops)
  obtain st trie' calls where x: "gbt_destroy trie = (st, trie', calls)"
    by (cases "gbt_destroy trie")
  with gbt_destroy_eq [of trie, symmetric] show ?case by (simp add: to_gnt_result_def)
qed

section \<open>The claims\<close>

text \<open>
  Claim C1: when the byte sequence of a stored key k1 is a proper prefix of that of a stored
  key k2, \<^verbatim>\<open>gnt_delete\<close> of k2 frees no node on the path of k1, and a search for k1 still
  returns the payload of k1. The code does not do this. With "a" (payload 11) and "ab"
  (payload 22) stored, the search for "a" returns 11; deleting "ab" hands only 22 to the
  deallocator, and afterwards the search for "a" returns 0 and the root array is empty:
  lines 342--353 free the byte node of "a" when its last child is gone, without looking
  at its \<^verbatim>\<open>occupied\<close> flag. With "abc" stored as well, as in the scenario of the
  specification, the node of "ab" keeps a child, nothing is freed and the search for "a"
  still returns 11.
\<close>

theorem delete_longer_key_frees_prefix_key:
  "gnt_search (insert_then (insert_then demo_strings key_a 11) key_ab 22) key_a = Inr 11 \<and>
   status_and_calls (gnt_delete (insert_then (insert_then demo_strings key_a 11) key_ab 22) key_ab)
     = Inr (0, [22]) \<and>
   gnt_search (delete_then (insert_then (insert_then demo_strings key_a 11) key_ab 22) key_ab) key_a
     = Inr 0 \<and>
   map_option t_nibbles
     (delete_then (insert_then (insert_then demo_strings key_a 11) key_ab 22) key_ab)
     = Some (replicate 16 None) \<and>
   gnt_search
     (delete_then (insert_then (insert_then (insert_then demo_strings key_a 11) key_ab 22)
                     key_abc 33) key_ab) key_a
     = Inr 11"
  by code_simp

text \<open>
  Claim C2: \<^verbatim>\<open>gnt_delete\<close> of a key that is not in the trie returns 0, changes nothing and
  calls no deallocator. The code does not do this. On the empty trie, and on a trie that
  holds only "a" when "ab" is deleted, lines 312--316 dereference a null slot. On a trie
  that holds only "ab", deleting "a" (a path that is there, with an unoccupied last node)
  returns 0 and calls the deallocator on the payload field 0 of that node.
\<close>

theorem delete_absent_key_not_noop:
  "gnt_delete demo_strings key_a = Inl NullDeref \<and>
   gnt_delete (insert_then demo_strings key_a 11) key_ab = Inl NullDeref \<and>
   status_and_calls (gnt_delete (insert_then demo_strings key_ab 22) key_a) = Inr (0, [0])"
  by (simp add: demo_defs)

text \<open>
  Claim C3 as the specification states it: \<^verbatim>\<open>gnt_search\<close> returns 0 when the handle is
  null, when the trie is empty, or when a slot on the path is absent. It is false for the
  null handle, where line 171 returns -1 converted to \<^verbatim>\<open>gnt_data_t\<close>; and for a key with
  no byte the result is not 0 either: the loop body never runs and line 203 reads a
  pointer that was never assigned.
\<close>

theorem search_null_handle_counterexample:
  "gnt_search None 1 \<noteq> Inr 0 \<and> gnt_search demo_strings key_empty \<noteq> Inr 0"
  by (simp add: demo_defs)

text \<open>
  Claim C3, amended: \<^verbatim>\<open>gnt_search\<close> returns the all-ones value for the null handle. For a
  trie and a key whose accessor gives at least one byte, it returns 0 when a slot of a
  nibble layer or byte node on the path of the key is absent, in particular on the empty
  trie, and otherwise the payload field of the last byte node of the path, whatever its
  \<^verbatim>\<open>occupied\<close> flag is. The search has no effect on the trie: its result is the payload
  only.
\<close>

theorem search_result:
  "gnt_search None key = Inr (- 1) \<and>
   (key_bytes (t_accessor t) key bs \<longrightarrow> bs \<noteq> [] \<longrightarrow>
      gnt_search (Some t) key =
        Inr (case path_node (t_nibbles t) bs of None \<Rightarrow> 0 | Some nd \<Rightarrow> nd_data nd)) \<and>
   (key_bytes (t_accessor t) key bs \<longrightarrow> bs \<noteq> [] \<longrightarrow> t_nibbles t = replicate 16 None \<longrightarrow>
      gnt_search (Some t) key = Inr 0)"
  by (simp add: gnt_search_def key_bytes_def search_loop_path path_node_empty)

text \<open>
  The amended claim C3 on the trie that holds only "ab": the search for "a" ends at an
  unoccupied node and returns its payload field 0, the search for "ab" returns 22, and
  the search for "ab" on the empty trie returns 0.
\<close>

theorem search_result_witness:
  "key_bytes (t_accessor (the (insert_then demo_strings key_ab 22))) key_a [0x61] \<and>
   gnt_search (insert_then demo_strings key_ab 22) key_a = Inr 0 \<and>
   key_bytes (t_accessor (the (insert_then demo_strings key_ab 22))) key_ab [0x61, 0x62] \<and>
   gnt_search (insert_then demo_strings key_ab 22) key_ab = Inr 22 \<and>
   key_bytes (t_accessor (the demo_strings)) key_ab [0x61, 0x62] \<and>
   t_nibbles (the demo_strings) = replicate 16 None \<and>
   gnt_search demo_strings key_ab = Inr 0"
proof -
  let ?t = "the (insert_then demo_strings key_ab 22)"
  have s: "insert_then demo_strings key_ab 22 = Some ?t" by (simp add: demo_defs)
  have s0: "demo_strings = Some (the demo_strings)" by (simp add: demo_defs)
  have k1: "key_bytes (t_accessor ?t) key_a [0x61]" by (simp add: key_defs)
  have k2: "key_bytes (t_accessor ?t) key_ab [0x61, 0x62]" by (simp add: key_defs)
  have k0: "key_bytes (t_accessor (the demo_strings)) key_ab [0x61, 0x62]" by (simp add: key_defs)
  have e0: "t_nibbles (the demo_strings) = replicate 16 None" by (simp add: demo_defs)
  have p1: "(case path_node (t_nibbles ?t) [0x61] of None \<Rightarrow> 0 | Some nd \<Rightarrow> nd_data nd) = 0"
    by (simp add: demo_defs)
  have p2: "(case path_node (t_nibbles ?t) [0x61, 0x62] of None \<Rightarrow> 0 | Some nd \<Rightarrow> nd_data nd) = 22"
    by (simp add: demo_defs)
  from search_result [of key_a ?t "[0x61]"] k1 p1
  have r1: "gnt_search (insert_then demo_strings key_ab 22) key_a = Inr 0" by (simp add: s [symmetric])
  from search_result [of key_ab ?t "[0x61, 0x62]"] k2 p2
  have r2: "gnt_search (insert_then demo_strings key_ab 22) key_ab = Inr 22" by (simp add: s [symmetric])
  from search_result [of key_ab "the demo_strings" "[0x61, 0x62]"] k0 e0
  have r0: "gnt_search demo_strings key_ab = Inr 0" by (simp add: s0 [symmetric])
  from k1 r1 k2 r2 k0 e0 r0 show ?thesis by blast
qed

text \<open>
  Claim C4: after a run of \<^verbatim>\<open>gnt_insert\<close> calls on keys with non-empty byte sequences, a
  search for an inserted key returns the payload of the most recent insertion of that key,
  and the search result of every other key is what it was before, also when byte sequences
  share prefixes. A key is told apart by its byte sequence: the search for a key with the
  bytes \<open>cs\<close> returns the payload of the last insertion of a key with the bytes \<open>cs\<close>, and
  the result on the trie before the run when there was none. The trie before the run
  satisfies the invariant of claim C8.
\<close>

theorem insert_then_search:
  assumes "trie_ok t"
    and "\<forall>(k, d) \<in> set ops. \<exists>bs. bs \<noteq> [] \<and> key_bytes (t_accessor t) k bs"
  shows "\<exists>t'. gnt_insert_all (Some t) ops = Some (Inr (Some t')) \<and>
           (\<forall>key cs. key_bytes (t_accessor t) key cs \<longrightarrow> cs \<noteq> [] \<longrightarrow>
              gnt_search (Some t') key =
                (case filter (\<lambda>(k, d). key_bytes (t_accessor t) k cs) ops of
                   [] \<Rightarrow> gnt_search (Some t) key
                 | x # xs \<Rightarrow> Inr (snd (last (x # xs)))))"
  using assms
proof (induction ops arbitrary: t)
  case Nil
  then show ?case by simp
next
  case (Cons op ops)
  obtain k d where op: "op = (k, d)" by (cases op)
  from Cons.prems(2) op obtain b bs where kb: "key_bytes (t_accessor t) k (b # bs)"
    by (auto simp: neq_Nil_conv)
  from insert_search_step [OF Cons.prems(1) kb, of d] obtain t1 calls where
    ins: "gnt_insert (Some t) k d = Some (Inr (0, Some t1, calls))"
    and ok1: "trie_ok t1" and acc: "t_accessor t1 = t_accessor t"
    and s1: "\<And>key' cs. key_bytes (t_accessor t) key' cs \<Longrightarrow> cs \<noteq> [] \<Longrightarrow>
              gnt_search (Some t1) key' =
                (if key_bytes (t_accessor t) k cs then Inr d else gnt_search (Some t) key')"
    by blast
  have "\<forall>(k, d) \<in> set ops. \<exists>bs. bs \<noteq> [] \<and> key_bytes (t_accessor t1) k bs"
    using Cons.prems(2) acc by auto
  from Cons.IH [OF ok1 this] obtain t' where
    all: "gnt_insert_all (Some t1) ops = Some (Inr (Some t'))"
    and s': "\<And>key cs. key_bytes (t_accessor t) key cs \<Longrightarrow> cs \<noteq> [] \<Longrightarrow>
              gnt_search (Some t') key =
                (case filter (\<lambda>(k, d). key_bytes (t_accessor t) k cs) ops of
                   [] \<Rightarrow> gnt_search (Some t1) key
                 | x # xs \<Rightarrow> Inr (snd (last (x # xs))))"
    unfolding acc by blast
  have "gnt_insert_all (Some t) (op # ops) = Some (Inr (Some t'))"
    using ins all by (simp add: op)
  moreover have "gnt_search (Some t') key =
                (case filter (\<lambda>(k, d). key_bytes (t_accessor t) k cs) (op # ops) of
                   [] \<Rightarrow> gnt_search (Some t) key
                 | x # xs \<Rightarrow> Inr (snd (last (x # xs))))"
    if "key_bytes (t_accessor t) key cs" and "cs \<noteq> []" for key cs
    using s' [OF that] s1 [OF that]
    by (cases "filter (\<lambda>(k, d). key_bytes (t_accessor t) k cs) ops") (simp_all add: op)
  ultimately show ?case by blast
qed

text \<open>
  Claim C4 on the empty trie of the default configuration with the insertions 1 to 10,
  258 to 20 and 1 to 30: the search for 1 returns 30, for 258 it returns 20, and for 257,
  which shares the first byte with 258, it returns 0 as before.
\<close>

theorem insert_then_search_witness:
  "trie_ok demo_numbers \<and>
   key_bytes (t_accessor demo_numbers) 1 [1] \<and>
   key_bytes (t_accessor demo_numbers) 258 [1, 2] \<and>
   (\<exists>t'. gnt_insert_all (Some demo_numbers) [(1, 10), (258, 20), (1, 30)] = Some (Inr (Some t')) \<and>
      gnt_search (Some t') 1 = Inr 30 \<and> gnt_search (Some t') 258 = Inr 20 \<and>
      gnt_search (Some t') 257 = Inr 0)"
proof -
  let ?acc = "t_accessor demo_numbers"
  let ?ops = "[(1, 10), (258, 20), (1, 30)] :: (gnt_key \<times> gnt_data) list"
  have ok: "trie_ok demo_numbers"
    by (simp add: trie_ok_slots demo_numbers_def slots_ok_empty)
  have k1: "key_bytes ?acc 1 [1]" by code_simp
  have k258: "key_bytes ?acc 258 [1, 2]" by code_simp
  have k257: "key_bytes ?acc 257 [1, 1]" by code_simp
  have e1: "\<exists>bs. bs \<noteq> [] \<and> key_bytes ?acc 1 bs" using k1 by blast
  have e258: "\<exists>bs. bs \<noteq> [] \<and> key_bytes ?acc 258 bs" using k258 by blast
  have keys: "\<forall>(k, d) \<in> set ?ops. \<exists>bs. bs \<noteq> [] \<and> key_bytes ?acc k bs"
    using e1 e258 by simp
  have f1: "filter (\<lambda>(k, d). key_bytes ?acc k [1]) ?ops = [(1, 10), (1, 30)]" by code_simp
  have f258: "filter (\<lambda>(k, d). key_bytes ?acc k [1, 2]) ?ops = [(258, 20)]" by code_simp
  have f257: "filter (\<lambda>(k, d). key_bytes ?acc k [1, 1]) ?ops = []" by code_simp
  have s257: "gnt_search (Some demo_numbers) 257 = Inr 0" by code_simp
  from insert_then_search [OF ok keys] obtain t' where
    all: "gnt_insert_all (Some demo_numbers) ?ops = Some (Inr (Some t'))"
    and s: "\<And>key cs. key_bytes ?acc key cs \<Longrightarrow> cs \<noteq> [] \<Longrightarrow>
              gnt_search (Some t') key =
                (case filter (\<lambda>(k, d). key_bytes ?acc k cs) ?ops of
                   [] \<Rightarrow> gnt_search (Some demo_numbers) key
                 | x # xs \<Rightarrow> Inr (snd (last (x # xs))))"
    by blast
  from s [OF k1] f1 have r1: "gnt_search (Some t') 1 = Inr 30" by simp
  from s [OF k258] f258 have r258: "gnt_search (Some t') 258 = Inr 20" by simp
  from s [OF k257] f257 s257 have r257: "gnt_search (Some t') 257 = Inr 0" by simp
  from all r1 r258 r257
  have "\<exists>t'. gnt_insert_all (Some demo_numbers) ?ops = Some (Inr (Some t')) \<and>
      gnt_search (Some t') 1 = Inr 30 \<and> gnt_search (Some t') 258 = Inr 20 \<and>
      gnt_search (Some t') 257 = Inr 0" by (intro exI [of _ t']) simp
  with ok k1 k258 show ?thesis by (intro conjI)
qed

text \<open>
  Claim C5: from the empty trie, after insertions and one \<^verbatim>\<open>gnt_delete\<close> for every inserted
  key, in any order, no nibble layer or byte node is allocated. The code does not do
  this for the order "ab" before "a": the first deletion already empties the trie (the
  defect of claim C1), and the deletion of "a" then dereferences the null root slot (the
  defect of claim C2).
\<close>

theorem delete_all_keys_fails:
  "map_option t_children
     (delete_then (insert_then (insert_then demo_strings key_a 11) key_ab 22) key_ab)
     = Some 0 \<and>
   gnt_delete (delete_then (insert_then (insert_then demo_strings key_a 11) key_ab 22) key_ab)
     key_a
     = Inl NullDeref"
  by (simp add: demo_defs)

text \<open>
  Claim C6: \<^verbatim>\<open>gnt_destroy\<close> calls the deallocator once for every occupied byte node and on
  no other value. The code does not do this: lines 290--293 call it for every byte node.
  On the trie that holds only "ab" (payload 22) it is called on 22 and then on the payload
  field 0 of the unoccupied node of "a".
\<close>

theorem destroy_calls_on_routing_node:
  "fst (gnt_destroy (insert_then demo_strings key_ab 22)) = 0 \<and>
   snd (snd (gnt_destroy (insert_then demo_strings key_ab 22))) = [22, 0]"
  by code_simp



text \<open>
  Claim C8: in every trie reachable from \<^verbatim>\<open>gnt_create\<close> by calls of \<^verbatim>\<open>gnt_insert\<close> and
  \<^verbatim>\<open>gnt_delete\<close> that return, the \<^verbatim>\<open>children\<close> counter of the root, of every nibble layer
  and of every byte node is the number of non-null entries of that node's array.
\<close>

theorem children_count_invariant: "reachable t \<Longrightarrow> trie_ok t"
  by (induction rule: reachable.induct) (auto intro: create_ok insert_ok delete_ok)

text \<open>
  Claim C8 on the trie of the default configuration after inserting the keys 97, 98 and
  113 (bytes 61, 62 and 71) and deleting 98: the keys 97 and 113 are still stored, the
  root has two nibble layers, and the nibble layer of 97 has one byte node left.
\<close>

theorem children_count_invariant_witness:
  "reachable
     (the (delete_then
             (insert_then (insert_then (insert_then (gnt_create True True None) 97 10) 98 20)
                113 30) 98))
   \<and>
   trie_ok
     (the (delete_then
             (insert_then (insert_then (insert_then (gnt_create True True None) 97 10) 98 20)
                113 30) 98))
   \<and>
   t_children
     (the (delete_then
             (insert_then (insert_then (insert_then (gnt_create True True None) 97 10) 98 20)
                113 30) 98)) = 2
   \<and>
   map_option nb_children
     (slot (t_nibbles
        (the (delete_then
                (insert_then (insert_then (insert_then (gnt_create True True None) 97 10) 98 20)
                   113 30) 98))) 6) = Some 1
   \<and>
   gnt_search
     (delete_then
        (insert_then (insert_then (insert_then (gnt_create True True None) 97 10) 98 20)
           113 30) 98) 97 = Inr 10
   \<and>
   gnt_search
     (delete_then
        (insert_then (insert_then (insert_then (gnt_create True True None) 97 10) 98 20)
           113 30) 98) 113 = Inr 30"
proof -
  let ?t0 = "gnt_create True True None"
  let ?t1 = "insert_then ?t0 97 10"
  let ?t2 = "insert_then ?t1 98 20"
  let ?t3 = "insert_then ?t2 113 30"
  let ?t4 = "delete_then ?t3 98"
  have c0: "?t0 = Some (the ?t0)" by (simp add: gnt_create_def)
  have r0: "reachable (the ?t0)" by (rule reachable.create [OF c0])
  have c1: "insert_then (Some (the ?t0)) 97 10 = Some (the ?t1)" by (simp add: eval_defs)
  have r1: "reachable (the ?t1)" using r0 c1 by (rule reachable_insert_then)
  have c2: "insert_then (Some (the ?t1)) 98 20 = Some (the ?t2)" by (simp add: eval_defs)
  have r2: "reachable (the ?t2)" using r1 c2 by (rule reachable_insert_then)
  have c3: "insert_then (Some (the ?t2)) 113 30 = Some (the ?t3)" by (simp add: eval_defs)
  have r3: "reachable (the ?t3)" using r2 c3 by (rule reachable_insert_then)
  have c4: "delete_then (Some (the ?t3)) 98 = Some (the ?t4)" by (simp add: eval_defs)
  have r4: "reachable (the ?t4)" using r3 c4 by (rule reachable_delete_then)
  have n: "t_children (the ?t4) = 2" by code_simp
  have m: "map_option nb_children (slot (t_nibbles (the ?t4)) 6) = Some 1" by code_simp
  have s97: "gnt_search ?t4 97 = Inr 10" by code_simp
  have s113: "gnt_search ?t4 113 = Inr 30" by code_simp
  from r4 children_count_invariant [OF r4] n m s97 s113 show ?thesis by (intro conjI)
qed

text \<open>
  Claim C9: for an accessor and a deallocator given in the configuration, \<^verbatim>\<open>gbt_create\<close>
  and \<^verbatim>\<open>gnt_create\<close> (when \<^verbatim>\<open>mtx_init\<close> succeeds) make tries with the same contents, both
  with that accessor and that deallocator, and the two string accessors are the same
  function. \<^verbatim>\<open>gbt_insert\<close>, \<^verbatim>\<open>gbt_search\<close>, \<^verbatim>\<open>gbt_delete\<close> and \<^verbatim>\<open>gbt_destroy\<close> return what
  \<^verbatim>\<open>gnt_insert\<close>, \<^verbatim>\<open>gnt_search\<close>, \<^verbatim>\<open>gnt_delete\<close> and \<^verbatim>\<open>gnt_destroy\<close> return on the trie
  with the same contents, and leave the same trie; a run of operations gives the same
  outcomes and the same trie at its end. With no accessor in the configuration, or with
  no configuration, each variant takes its own default accessor: that of gbt.c gives the
  decimal digits of the key, most significant first, and that of gnt.c its base-256
  digits, most significant first; for the key 10 they differ.
\<close>

theorem gbt_gnt_equivalent:
  "map_option to_gnt
     (gbt_create calloc_ok (Some \<lparr>bcfg_accessor = Some accessor, bcfg_deallocator = deallocator\<rparr>))
     = gnt_create calloc_ok True
         (Some \<lparr>cfg_accessor = Some accessor, cfg_deallocator = deallocator\<rparr>) \<and>
   gbt_create True (Some \<lparr>bcfg_accessor = Some accessor, bcfg_deallocator = deallocator\<rparr>)
     = Some \<lparr>b_children = 0, b_nibbles = replicate 16 None,
              b_accessor = accessor, b_deallocator = deallocator\<rparr> \<and>
   gnt_create True True (Some \<lparr>cfg_accessor = Some accessor, cfg_deallocator = deallocator\<rparr>)
     = Some \<lparr>t_children = 0, t_nibbles = replicate 16 None,
              t_accessor = accessor, t_deallocator = deallocator\<rparr> \<and>
   gbt_create False bcfg = None \<and> gnt_create False mtx_ok cfg = None \<and>
   gnt_create calloc_ok False cfg = None \<and>
   map_option b_accessor
     (gbt_create True (Some \<lparr>bcfg_accessor = None, bcfg_deallocator = deallocator\<rparr>))
     = Some gbt_accessor_default \<and>
   map_option b_accessor (gbt_create True None) = Some gbt_accessor_default \<and>
   map_option t_accessor
     (gnt_create True True (Some \<lparr>cfg_accessor = None, cfg_deallocator = deallocator\<rparr>))
     = Some gnt_accessor_default \<and>
   map_option t_accessor (gnt_create True True None) = Some gnt_accessor_default \<and>
   map_option b_deallocator
     (gbt_create True (Some \<lparr>bcfg_accessor = None, bcfg_deallocator = deallocator\<rparr>))
     = map_option t_deallocator
         (gnt_create True True (Some \<lparr>cfg_accessor = None, cfg_deallocator = deallocator\<rparr>)) \<and>
   gbt_accessor_string mem key index = gnt_accessor_string mem key index \<and>
   map_option (map_sum id to_gnt_result) (gbt_insert trie key data) =
     gnt_insert (map_option to_gnt trie) key data \<and>
   gbt_search trie key = gnt_search (map_option to_gnt trie) key \<and>
   map_sum id to_gnt_result (gbt_delete trie key) = gnt_delete (map_option to_gnt trie) key \<and>
   to_gnt_result (gbt_destroy trie) = gnt_destroy (map_option to_gnt trie) \<and>
   gnt_run (map_option to_gnt trie) ops =
     (fst (gbt_run trie ops), map_option to_gnt (snd (gbt_run trie ops))) \<and>
   gbt_accessor_default key index =
     (if index < length (digits_msf 10 (unat key))
      then Some (of_nat (digits_msf 10 (unat key) ! index)) else None) \<and>
   gnt_accessor_default key index =
     (if index < length (digits_msf 256 (unat key))
      then Some (of_nat (digits_msf 256 (unat key) ! index)) else None) \<and>
   gbt_accessor_default 10 0 = Some 1 \<and> gnt_accessor_default 10 0 = Some 10"
proof -
  have d10: "digits_msf 10 10 = [1, 0]"
    by (subst digits_msf.simps, subst digits_msf.simps) simp
  have d256: "digits_msf 256 10 = [10]"
    by (subst digits_msf.simps) simp
  have "gbt_accessor_default 10 0 = Some 1" "gnt_accessor_default 10 0 = Some 10"
    by (simp_all add: gbt_accessor_default_digits gnt_accessor_default_digits d10 d256)
  then have ops: "map_option (map_sum id to_gnt_result) (gbt_insert trie key data) =
     gnt_insert (map_option to_gnt trie) key data \<and>
   gbt_search trie key = gnt_search (map_option to_gnt trie) key \<and>
   map_sum id to_gnt_result (gbt_delete trie key) = gnt_delete (map_option to_gnt trie) key \<and>
   to_gnt_result (gbt_destroy trie) = gnt_destroy (map_option to_gnt trie) \<and>
   gnt_run (map_option to_gnt trie) ops =
     (fst (gbt_run trie ops), map_option to_gnt (snd (gbt_run trie ops))) \<and>
   gbt_accessor_default key index =
     (if index < length (digits_msf 10 (unat key))
      then Some (of_nat (digits_msf 10 (unat key) ! index)) else None) \<and>
   gnt_accessor_default key index =
     (if index < length (digits_msf 256 (unat key))
      then Some (of_nat (digits_msf 256 (unat key) ! index)) else None) \<and>
   gbt_accessor_default 10 0 = Some 1 \<and> gnt_accessor_default 10 0 = Some 10"
    using gbt_insert_eq [of trie key data] gbt_search_eq [of trie key] gbt_delete_eq [of trie key]
      gbt_destroy_eq [of trie] gbt_run_eq [of trie ops]
      gbt_accessor_default_digits [of key index]
      gnt_accessor_default_digits [of key index]
    by simp
  have create: "map_option to_gnt
     (gbt_create calloc_ok (Some \<lparr>bcfg_accessor = Some accessor, bcfg_deallocator = deallocator\<rparr>))
     = gnt_create calloc_ok True
         (Some \<lparr>cfg_accessor = Some accessor, cfg_deallocator = deallocator\<rparr>)"
    by (simp add: gbt_create_def gnt_create_def to_gnt_def)
  have create_b: "gbt_create True
       (Some \<lparr>bcfg_accessor = Some accessor, bcfg_deallocator = deallocator\<rparr>)
     = Some \<lparr>b_children = 0, b_nibbles = replicate 16 None,
              b_accessor = accessor, b_deallocator = deallocator\<rparr>"
    by (simp add: gbt_create_def)
  have create_t: "gnt_create True True
       (Some \<lparr>cfg_accessor = Some accessor, cfg_deallocator = deallocator\<rparr>)
     = Some \<lparr>t_children = 0, t_nibbles = replicate 16 None,
              t_accessor = accessor, t_deallocator = deallocator\<rparr>"
    by (simp add: gnt_create_def)
  have fail: "gbt_create False bcfg = None" "gnt_create False mtx_ok cfg = None"
    "gnt_create calloc_ok False cfg = None"
    by (simp_all add: gbt_create_def gnt_create_def)
  have dflt: "map_option b_accessor
       (gbt_create True (Some \<lparr>bcfg_accessor = None, bcfg_deallocator = deallocator\<rparr>))
     = Some gbt_accessor_default"
    "map_option b_accessor (gbt_create True None) = Some gbt_accessor_default"
    "map_option t_accessor
       (gnt_create True True (Some \<lparr>cfg_accessor = None, cfg_deallocator = deallocator\<rparr>))
     = Some gnt_accessor_default"
    "map_option t_accessor (gnt_create True True None) = Some gnt_accessor_default"
    "map_option b_deallocator
       (gbt_create True (Some \<lparr>bcfg_accessor = None, bcfg_deallocator = deallocator\<rparr>))
     = map_option t_deallocator
         (gnt_create True True (Some \<lparr>cfg_accessor = None, cfg_deallocator = deallocator\<rparr>))"
    by (simp_all add: gbt_create_def gnt_create_def)
  have str: "gbt_accessor_string mem key index = gnt_accessor_string mem key index"
    by (simp add: gbt_accessor_string_def gnt_accessor_string_def)
  from create create_b create_t fail dflt str ops show ?thesis by (intro conjI) simp_all
qed

text \<open>
  Claim C10: when the accessor ends the key at index 0, \<^verbatim>\<open>gnt_insert\<close> reads the node
  pointer that was never assigned; when it gives a byte at index 0 it does not, and the
  call returns 0 for every key of finitely many bytes. The string accessor ends the key
  at index 0 for the empty string. The default accessor gives a byte at index 0 for every
  key, and exactly the one byte 0 for the key 0.
\<close>

theorem insert_needs_one_byte:
  "(t_accessor t key 0 = None \<longrightarrow> gnt_insert (Some t) key data = Some (Inl UninitRead)) \<and>
   (t_accessor t key 0 \<noteq> None \<longrightarrow> gnt_insert (Some t) key data \<noteq> Some (Inl UninitRead)) \<and>
   (key_bytes (t_accessor t) key bs \<longrightarrow> bs \<noteq> [] \<longrightarrow>
      (\<exists>t' calls. gnt_insert (Some t) key data = Some (Inr (0, Some t', calls)))) \<and>
   (strlen (mem key) = 0 \<longrightarrow> gnt_accessor_string mem key 0 = None) \<and>
   gnt_accessor_default key 0 \<noteq> None \<and>
   gnt_accessor_default 0 0 = Some 0 \<and> gnt_accessor_default 0 1 = None"
proof -
  have 1: "t_accessor t key 0 = None \<longrightarrow> gnt_insert (Some t) key data = Some (Inl UninitRead)"
    by (simp add: gnt_insert_def)
  have 2: "t_accessor t key 0 \<noteq> None \<longrightarrow> gnt_insert (Some t) key data \<noteq> Some (Inl UninitRead)"
    by (auto simp: gnt_insert_def bind_eq_Some_conv)
  have 3: "key_bytes (t_accessor t) key bs \<longrightarrow> bs \<noteq> [] \<longrightarrow>
      (\<exists>t' calls. gnt_insert (Some t) key data = Some (Inr (0, Some t', calls)))"
    using insert_result [of t key _ _ data] by (cases bs) auto
  have 4: "strlen (mem key) = 0 \<longrightarrow> gnt_accessor_string mem key 0 = None"
    by (simp add: gnt_accessor_string_def)
  have 5: "gnt_accessor_default key 0 \<noteq> None"
    using digits_msf_length_pos [of 256 "unat key"] by (simp add: gnt_accessor_default_digits)
  have d0: "digits_msf 256 0 = [0]" by (subst digits_msf.simps) simp
  have 6: "gnt_accessor_default 0 0 = Some 0 \<and> gnt_accessor_default 0 1 = None"
    by (simp add: gnt_accessor_default_digits d0)
  from 1 2 3 4 5 6 show ?thesis by blast
qed

text \<open>
  Claim C10 on the empty string-keyed trie, with the key of the empty string and the key
  of "ab".
\<close>

theorem insert_needs_one_byte_witness:
  "t_accessor (the demo_strings) key_empty 0 = None \<and>
   gnt_insert demo_strings key_empty 5 = Some (Inl UninitRead) \<and>
   t_accessor (the demo_strings) key_ab 0 \<noteq> None \<and>
   gnt_insert demo_strings key_ab 5 \<noteq> Some (Inl UninitRead) \<and>
   key_bytes (t_accessor (the demo_strings)) key_ab [0x61, 0x62] \<and>
   (\<exists>t' calls. gnt_insert demo_strings key_ab 5 = Some (Inr (0, Some t', calls))) \<and>
   strlen (demo_mem key_empty) = 0 \<and> gnt_accessor_string demo_mem key_empty 0 = None"
proof -
  let ?t = "the demo_strings"
  have s: "demo_strings = Some ?t" by (simp add: demo_defs)
  have a0: "t_accessor ?t key_empty 0 = None" by code_simp
  have a2: "t_accessor ?t key_ab 0 \<noteq> None" by code_simp
  have k2: "key_bytes (t_accessor ?t) key_ab [0x61, 0x62]" by code_simp
  have l0: "strlen (demo_mem key_empty) = 0" by code_simp
  note w = insert_needs_one_byte [of ?t _ 5 "[0x61, 0x62]" demo_mem]
  from w [of key_empty] a0 have r0: "gnt_insert demo_strings key_empty 5 = Some (Inl UninitRead)"
    by (simp add: s [symmetric])
  from w [of key_ab] a2 have r2: "gnt_insert demo_strings key_ab 5 \<noteq> Some (Inl UninitRead)"
    by (simp add: s [symmetric])
  from w [of key_ab] k2 have r3: "\<exists>t' calls. gnt_insert demo_strings key_ab 5 = Some (Inr (0, Some t', calls))"
    by (simp add: s [symmetric])
  from w [of key_empty] l0 have r4: "gnt_accessor_string demo_mem key_empty 0 = None" by simp
  from a0 r0 a2 r2 k2 r3 l0 r4 show ?thesis by blast
qed

end
